theory Spec2Isabelle
  imports Complex_Main
begin

section \<open>Event classifier: \<open>cli/parser.py\<close>\<close>

text \<open>
  The events handed to \<open>CLIParser.parse_event\<close> are decoded JSON lines, so a Python value
  is \<open>None\<close>, a bool, an int, a float, a str, a list or a dict with string keys. A dict is
  an association list read with \<open>map_of\<close>. Floats are only ever compared with zero or tested
  for truth here, so a real number stands for them (NaN and the infinities behave like any
  non-zero float in both tests).
\<close>

datatype pyval =
    PNone
  | PBool bool
  | PInt int
  | PFloat real
  | PStr string
  | PList "pyval list"
  | PDict "(string \<times> pyval) list"

datatype pyerr = TypeError | AttributeError

text \<open>Python's \<open>bool(v)\<close>, as used by \<open>if msg_obj\<close> and \<open>if not msg_obj\<close>.\<close>

fun truthy :: "pyval \<Rightarrow> bool" where
  "truthy PNone = False"
| "truthy (PBool b) = b"
| "truthy (PInt i) = (i \<noteq> 0)"
| "truthy (PFloat f) = (f \<noteq> 0)"
| "truthy (PStr s) = (s \<noteq> [])"
| "truthy (PList xs) = (xs \<noteq> [])"
| "truthy (PDict kvs) = (kvs \<noteq> [])"

text \<open>\<open>d.get(k)\<close> and \<open>d.get(k, default)\<close> on a dict.\<close>

definition dict_get :: "(string \<times> pyval) list \<Rightarrow> string \<Rightarrow> pyval" where
  "dict_get d k = (case map_of d k of None \<Rightarrow> PNone | Some v \<Rightarrow> v)"

definition dict_get_default :: "(string \<times> pyval) list \<Rightarrow> string \<Rightarrow> pyval \<Rightarrow> pyval" where
  "dict_get_default d k dflt = (case map_of d k of None \<Rightarrow> dflt | Some v \<Rightarrow> v)"

text \<open>
  \<open>v == n\<close> for an int literal \<open>n\<close>: Python compares numbers by value across int, bool and
  float (\<open>False == 0\<close> and \<open>0.0 == 0\<close> hold); every other JSON value is unequal to a number.
\<close>

fun py_eq_int :: "pyval \<Rightarrow> int \<Rightarrow> bool" where
  "py_eq_int (PInt i) n = (i = n)"
| "py_eq_int (PBool b) n = ((if b then 1 else 0) = n)"
| "py_eq_int (PFloat f) n = (f = of_int n)"
| "py_eq_int _ n = False"

text \<open>\<open>sep.join(xs)\<close>: raises \<open>TypeError\<close> when an item is not a str.\<close>

fun strs_of :: "pyval list \<Rightarrow> pyerr + string list" where
  "strs_of [] = Inr []"
| "strs_of (PStr s # xs) = (case strs_of xs of Inl e \<Rightarrow> Inl e | Inr ss \<Rightarrow> Inr (s # ss))"
| "strs_of (_ # xs) = Inl TypeError"

fun join_strs :: "string \<Rightarrow> string list \<Rightarrow> string" where
  "join_strs sep [] = []"
| "join_strs sep [s] = s"
| "join_strs sep (s # t # ss) = s @ sep @ join_strs sep (t # ss)"

definition py_join :: "string \<Rightarrow> pyval list \<Rightarrow> pyerr + string" where
  "py_join sep xs = (case strs_of xs of Inl e \<Rightarrow> Inl e | Inr ss \<Rightarrow> Inr (join_strs sep ss))"

text \<open>
  Lines 29--37: the message object of an \<open>assistant\<close> event, or of a \<open>result\<close> event
  (the message inside \<open>result\<close>, else the event's own \<open>message\<close>); \<open>None\<close> otherwise.
\<close>

definition msg_obj_of :: "(string \<times> pyval) list \<Rightarrow> pyval" where
  "msg_obj_of event =
     (let etype = dict_get event ''type'' in
      if etype = PStr ''assistant'' then dict_get event ''message''
      else if etype = PStr ''result'' then
        (let res = dict_get event ''result'';
             msg_obj = (case res of PDict r \<Rightarrow> dict_get r ''message'' | _ \<Rightarrow> PNone)
         in if \<not> truthy msg_obj then dict_get event ''message'' else msg_obj)
      else PNone)"

text \<open>
  Lines 42--54: the loop over the content items, with its three accumulators
  \<open>parts\<close>, \<open>thinking_parts\<close> and \<open>tool_calls\<close>.
\<close>

fun collect :: "pyval list \<Rightarrow> pyval list \<times> pyval list \<times> pyval list
    \<Rightarrow> pyval list \<times> pyval list \<times> pyval list" where
  "collect [] acc = acc"
| "collect (PDict c # cs) (parts, thinking_parts, tool_calls) =
     (let ctype = dict_get c ''type'' in
      if ctype = PStr ''text'' then
        collect cs (parts @ [dict_get_default c ''text'' (PStr [])], thinking_parts, tool_calls)
      else if ctype = PStr ''thinking'' then
        collect cs (parts, thinking_parts @ [dict_get_default c ''thinking'' (PStr [])], tool_calls)
      else if ctype = PStr ''tool_use'' then
        collect cs (parts, thinking_parts, tool_calls @ [PDict c])
      else collect cs (parts, thinking_parts, tool_calls))"
| "collect (_ # cs) acc = collect cs acc"

text \<open>
  \<open>t.get("input", {}).get("description", "Subagent")\<close>: the second \<open>get\<close> raises
  \<open>AttributeError\<close> when \<open>input\<close> is present and not a dict.
\<close>

definition task_description :: "(string \<times> pyval) list \<Rightarrow> pyerr + pyval" where
  "task_description t =
     (case dict_get_default t ''input'' (PDict []) of
        PDict i \<Rightarrow> Inr (dict_get_default i ''description'' (PStr ''Subagent''))
      | _ \<Rightarrow> Inl AttributeError)"

text \<open>Lines 58--62: the list comprehension over \<open>tool_calls\<close>, left to right.\<close>

fun subagents_of :: "pyval list \<Rightarrow> pyerr + pyval list" where
  "subagents_of [] = Inr []"
| "subagents_of (PDict t # ts) =
     (if dict_get t ''name'' = PStr ''Task'' then
        (case task_description t of
           Inl e \<Rightarrow> Inl e
         | Inr d \<Rightarrow> (case subagents_of ts of Inl e \<Rightarrow> Inl e | Inr ds \<Rightarrow> Inr (d # ds)))
      else subagents_of ts)"
| "subagents_of (_ # ts) = Inl AttributeError"

text \<open>
  Lines 39--75. The result is \<open>Inr (Some chunk)\<close> where the source returns a chunk and
  \<open>Inr None\<close> where control falls through to the rules below.
\<close>

definition parse_message :: "pyval \<Rightarrow> pyerr + pyval option" where
  "parse_message msg_obj =
     (case msg_obj of
        PDict m \<Rightarrow>
          if truthy msg_obj then
            (case dict_get_default m ''content'' (PList []) of
               PList content \<Rightarrow>
                 (case collect content ([], [], []) of
                    (parts, thinking_parts, tool_calls) \<Rightarrow>
                      if tool_calls \<noteq> [] then
                        (case subagents_of tool_calls of
                           Inl e \<Rightarrow> Inl e
                         | Inr subagents \<Rightarrow>
                             if subagents \<noteq> [] then
                               Inr (Some (PDict [(''type'', PStr ''subagent_start''),
                                                 (''tasks'', PList subagents)]))
                             else
                               Inr (Some (PDict [(''type'', PStr ''tool_start''),
                                                 (''tools'', PList tool_calls)])))
                      else
                        (case (if thinking_parts \<noteq> [] then py_join ''\<newline>'' thinking_parts
                               else Inr []) of
                           Inl e \<Rightarrow> Inl e
                         | Inr thinking \<Rightarrow>
                             (case (if parts \<noteq> [] then py_join [] parts else Inr []) of
                                Inl e \<Rightarrow> Inl e
                              | Inr text \<Rightarrow>
                                  (let result =
                                     (if thinking_parts \<noteq> [] then [(''thinking'', PStr thinking)]
                                      else []) @
                                     (if parts \<noteq> [] then [(''text'', PStr text)] else [])
                                   in if result \<noteq> [] then
                                        Inr (Some (PDict (result @ [(''type'', PStr ''content'')])))
                                      else Inr None))))
             | _ \<Rightarrow> Inr None)
          else Inr None
      | _ \<Rightarrow> Inr None)"

text \<open>Lines 78--85: streaming deltas.\<close>

definition parse_delta :: "(string \<times> pyval) list \<Rightarrow> pyval option" where
  "parse_delta event =
     (if dict_get event ''type'' = PStr ''content_block_delta'' then
        (case dict_get_default event ''delta'' (PDict []) of
           PDict delta \<Rightarrow>
             if dict_get delta ''type'' = PStr ''text_delta'' then
               Some (PDict [(''type'', PStr ''content''),
                            (''text'', dict_get_default delta ''text'' (PStr []))])
             else if dict_get delta ''type'' = PStr ''thinking_delta'' then
               Some (PDict [(''type'', PStr ''thinking''),
                            (''text'', dict_get_default delta ''thinking'' (PStr []))])
             else None
         | _ \<Rightarrow> Some PNone)
      else None)"

text \<open>Lines 88--94: the start of a tool-use block.\<close>

definition parse_block_start :: "(string \<times> pyval) list \<Rightarrow> pyerr + pyval option" where
  "parse_block_start event =
     (if dict_get event ''type'' = PStr ''content_block_start'' then
        (case dict_get_default event ''content_block'' (PDict []) of
           PDict block \<Rightarrow>
             if dict_get block ''type'' = PStr ''tool_use'' then
               (if dict_get block ''name'' = PStr ''Task'' then
                  (case task_description block of
                     Inl e \<Rightarrow> Inl e
                   | Inr desc \<Rightarrow>
                       Inr (Some (PDict [(''type'', PStr ''subagent_start''),
                                         (''tasks'', PList [desc])])))
                else Inr (Some (PDict [(''type'', PStr ''tool_start''),
                                       (''tools'', PList [PDict block])])))
             else Inr None
         | _ \<Rightarrow> Inr None)
      else Inr None)"

text \<open>
  Lines 97--107: errors, exit, and the final \<open>return None\<close>. \<open>str(err)\<close> is the builtin;
  it never raises on a JSON value and its text plays no role below, so it is the
  parameter \<open>py_str\<close>.
\<close>

definition parse_error_exit :: "(pyval \<Rightarrow> string) \<Rightarrow> (string \<times> pyval) list \<Rightarrow> pyval" where
  "parse_error_exit py_str event =
     (let etype = dict_get event ''type'' in
      if etype = PStr ''error'' then
        (let err = dict_get event ''error'';
             msg = (case err of PDict e \<Rightarrow> dict_get e ''message'' | _ \<Rightarrow> PStr (py_str err))
         in PDict [(''type'', PStr ''error''), (''message'', msg)])
      else if etype = PStr ''exit'' then
        PDict [(''type'', PStr ''complete''),
               (''status'', PStr (if py_eq_int (dict_get event ''code'') 0 then ''success''
                                  else ''failed''))]
      else PNone)"

text \<open>
  \<open>CLIParser.parse_event\<close>: \<open>Inl\<close> is an exception escaping the function, \<open>Inr PNone\<close> is
  \<open>return None\<close>.
\<close>

definition parse_event :: "(pyval \<Rightarrow> string) \<Rightarrow> pyval \<Rightarrow> pyerr + pyval" where
  "parse_event py_str event =
     (case event of
        PDict ev \<Rightarrow>
          (case parse_message (msg_obj_of ev) of
             Inl e \<Rightarrow> Inl e
           | Inr (Some r) \<Rightarrow> Inr r
           | Inr None \<Rightarrow>
               (case parse_delta ev of
                  Some r \<Rightarrow> Inr r
                | None \<Rightarrow>
                    (case parse_block_start ev of
                       Inl e \<Rightarrow> Inl e
                     | Inr (Some r) \<Rightarrow> Inr r
                     | Inr None \<Rightarrow> Inr (parse_error_exit py_str ev))))
      | _ \<Rightarrow> Inr PNone)"

text \<open>
  What the classifier is expected to do, in terms of the event alone. An event is a full
  message when it is an \<open>assistant\<close> turn carrying a message, or a \<open>result\<close> that wraps a
  message: inside its \<open>result\<close> field, or, when that gives none (the field is not a dict,
  or its \<open>message\<close> is absent or a falsy value), as its own \<open>message\<close>. The message is a
  non-empty dict.
\<close>

definition falsy :: "pyval \<Rightarrow> bool" where
  "falsy v \<longleftrightarrow> v \<in> {PNone, PBool False, PInt 0, PFloat 0, PStr [], PList [], PDict []}"

definition full_message :: "(string \<times> pyval) list \<Rightarrow> (string \<times> pyval) list \<Rightarrow> bool" where
  "full_message ev m \<longleftrightarrow> m \<noteq> [] \<and>
     (map_of ev ''type'' = Some (PStr ''assistant'') \<and> map_of ev ''message'' = Some (PDict m)
      \<or> map_of ev ''type'' = Some (PStr ''result'') \<and>
        ((\<exists>r. map_of ev ''result'' = Some (PDict r) \<and> map_of r ''message'' = Some (PDict m))
         \<or> map_of ev ''message'' = Some (PDict m) \<and>
           (\<forall>r v. map_of ev ''result'' = Some (PDict r) \<and> map_of r ''message'' = Some v
                    \<longrightarrow> falsy v)))"

text \<open>
  The content items of a message by kind: the dict items whose \<open>type\<close> is the given one,
  in order; the tool-use items that name the sub-agent tool \<open>Task\<close>; the description such
  an item carries (\<open>Subagent\<close> when the input or its description is absent); whether its
  \<open>input\<close> is absent or a dict; and the payload of a text or thinking item under its key
  (the empty string when the key is absent).
\<close>

fun item_dicts :: "string \<Rightarrow> pyval list \<Rightarrow> (string \<times> pyval) list list" where
  "item_dicts ty [] = []"
| "item_dicts ty (PDict d # cs) =
     (if map_of d ''type'' = Some (PStr ty) then d # item_dicts ty cs else item_dicts ty cs)"
| "item_dicts ty (_ # cs) = item_dicts ty cs"




definition payload :: "string \<Rightarrow> (string \<times> pyval) list \<Rightarrow> pyval" where
  "payload key d = (case map_of d key of None \<Rightarrow> PStr [] | Some v \<Rightarrow> v)"


section \<open>Rendering the display buffer: \<open>ClaudeMessageHandler._build_message\<close>\<close>

text \<open>
  \<open>len\<close>, slicing and \<open>count\<close> work on code points, and the rendered lines contain
  characters outside ASCII, so a Python \<open>str\<close> is a list of code points here. The part
  kinds are the ASCII tags the handler writes and stay HOL strings.
\<close>

type_synonym pystr = "nat list"

definition ascii :: "string \<Rightarrow> pystr" where
  "ascii s = map of_char s"

definition newline :: pystr where
  "newline = [10]"

definition fence :: pystr where
  "fence = [96, 96, 96]"

text \<open>\<open>sep.join(lines)\<close> on a list of strings.\<close>

fun join_lines :: "pystr \<Rightarrow> pystr list \<Rightarrow> pystr" where
  "join_lines sep [] = []"
| "join_lines sep [l] = l"
| "join_lines sep (l # k # ls) = l @ sep @ join_lines sep (k # ls)"

text \<open>
  \<open>s.count(sub)\<close>: the number of non-overlapping occurrences of \<open>sub\<close>, scanning from the
  left; an empty \<open>sub\<close> occurs between all characters and at both ends.
\<close>

function py_count :: "pystr \<Rightarrow> pystr \<Rightarrow> nat" where
  "py_count sub s =
     (if sub = [] then Suc (length s)
      else if s = [] then 0
      else if take (length sub) s = sub then Suc (py_count sub (drop (length sub) s))
      else py_count sub (tl s))"
  by pat_completeness auto
termination
  by (relation "measure (\<lambda>(sub, s). length s)") (auto simp: neq_Nil_conv)

declare py_count.simps [simp del]

text \<open>
  Lines 268--277: the line a part contributes, if its kind is one of the four known;
  a thinking part is cut to 1200 characters, with an ellipsis when it was longer.
\<close>

definition part_line :: "string \<times> pystr \<Rightarrow> pystr option" where
  "part_line p =
     (case p of (part_type, content) \<Rightarrow>
        if part_type = ''thinking'' then
          (let display = take 1200 content @ (if length content > 1200 then ascii ''...'' else [])
           in Some ([128173] @ ascii '' **Thinking:**'' @ newline @ fence @ newline @ display
                    @ newline @ fence))
        else if part_type = ''tool'' then
          Some ([128295] @ ascii '' **Tools:** `'' @ content @ ascii ''`'')
        else if part_type = ''content'' then Some content
        else if part_type = ''error'' then Some ([9888, 65039] @ ascii '' '' @ content)
        else None)"

text \<open>Lines 263--279: the status line and an empty line, then the parts, joined by newlines.\<close>

definition render :: "(string \<times> pystr) list \<Rightarrow> pystr option \<Rightarrow> pystr" where
  "render parts status =
     join_lines newline
       ((case status of
           None \<Rightarrow> []
         | Some s \<Rightarrow> if s \<noteq> [] then [s, []] else []) @
        List.map_filter part_line parts)"

text \<open>Lines 281--284: keep the last 3795 characters behind an ellipsis, and close a fence.\<close>

definition truncate_message :: "pystr \<Rightarrow> pystr" where
  "truncate_message result =
     (if length result > 3800 then
        (let result' = ascii ''...'' @ drop (length result - 3795) result
         in if py_count fence result' mod 2 \<noteq> 0 then result' @ newline @ fence else result')
      else result)"

definition build_message :: "(string \<times> pystr) list \<Rightarrow> pystr option \<Rightarrow> pystr" where
  "build_message parts status = truncate_message (render parts status)"

section \<open>Session queue manager: \<open>messaging/queue.py\<close>\<close>

text \<open>
  The manager runs on one asyncio event loop, so the code between two suspension points is
  atomic. None of its critical sections suspends while holding \<open>_lock\<close> (\<open>put\<close> on an
  unbounded queue returns at once, \<open>cancel_all\<close> only calls the synchronous
  \<open>cancel_session\<close>), hence the lock is always free when it is requested and every method
  body below is one atomic step. What is not atomic is a processing task: it is created by
  \<open>asyncio.create_task\<close>, starts running at a later turn of the loop, and ends when the
  processor it awaits returns or raises. \<open>Task.cancel()\<close> only requests cancellation: a task
  that has not started yet then never runs its body, and a running task gets
  \<open>CancelledError\<close> at a later turn and goes through the \<open>finally\<close> block of
  \<open>_process_message\<close> like every other ending.

  A message is opaque to the manager (type \<open>'m\<close>). A task is identified by its position
  in the list of all tasks created so far.
\<close>

datatype phase = Created | Running | Done

record 'm task =
  t_session :: string
  t_message :: 'm
  t_phase :: phase
  t_cancel :: bool

record 'm session_queue =
  session_id :: string
  queue :: "'m list"
  is_processing :: bool
  current_task :: "nat option"
  current_message :: "'m option"

text \<open>
  \<open>_queues\<close> is a dict, kept as an association list in insertion order (the order in
  which \<open>cancel_all\<close> visits its keys).
\<close>

record 'm manager =
  queues :: "(string \<times> 'm session_queue) list"
  tasks :: "'m task list"

definition SessionQueue :: "string \<Rightarrow> 'm session_queue" where
  "SessionQueue sid =
     \<lparr>session_id = sid, queue = [], is_processing = False, current_task = None,
      current_message = None\<rparr>"

definition MessageQueueManager :: "'m manager" where
  "MessageQueueManager = \<lparr>queues = [], tasks = []\<rparr>"

text \<open>Assignment to a field of the \<open>SessionQueue\<close> object stored under a key.\<close>

definition modify_queue ::
  "'m manager \<Rightarrow> string \<Rightarrow> ('m session_queue \<Rightarrow> 'm session_queue) \<Rightarrow> 'm manager" where
  "modify_queue st sid f =
     st\<lparr>queues := map (\<lambda>(k, sq). if k = sid then (k, f sq) else (k, sq)) (queues st)\<rparr>"

definition get_or_create_queue :: "'m manager \<Rightarrow> string \<Rightarrow> 'm manager \<times> 'm session_queue" where
  "get_or_create_queue st sid =
     (case map_of (queues st) sid of
        Some sq \<Rightarrow> (st, sq)
      | None \<Rightarrow> (st\<lparr>queues := queues st @ [(sid, SessionQueue sid)]\<rparr>, SessionQueue sid))"

definition is_session_busy :: "'m manager \<Rightarrow> string \<Rightarrow> bool" where
  "is_session_busy st sid =
     (case map_of (queues st) sid of None \<Rightarrow> False | Some sq \<Rightarrow> is_processing sq)"

definition get_queue_size :: "'m manager \<Rightarrow> string \<Rightarrow> nat" where
  "get_queue_size st sid =
     (case map_of (queues st) sid of None \<Rightarrow> 0 | Some sq \<Rightarrow> length (queue sq))"

text \<open>\<open>asyncio.create_task(self._process_message(session_id, message, processor))\<close>.\<close>

definition create_task :: "'m manager \<Rightarrow> string \<Rightarrow> 'm \<Rightarrow> nat \<times> 'm manager" where
  "create_task st sid message =
     (length (tasks st),
      st\<lparr>tasks := tasks st @
          [\<lparr>t_session = sid, t_message = message, t_phase = Created, t_cancel = False\<rparr>]\<rparr>)"

text \<open>Lines 63--103. The first component is the value returned.\<close>

definition enqueue :: "'m manager \<Rightarrow> string \<Rightarrow> 'm \<Rightarrow> bool \<times> 'm manager" where
  "enqueue st sid message =
     (case get_or_create_queue st sid of
        (st1, sq) \<Rightarrow>
          if is_processing sq then
            (True, modify_queue st1 sid (\<lambda>q. q\<lparr>queue := queue q @ [message]\<rparr>))
          else
            (case create_task (modify_queue st1 sid (\<lambda>q. q\<lparr>is_processing := True\<rparr>))
                    sid message of
               (t, st2) \<Rightarrow> (False, modify_queue st2 sid (\<lambda>q. q\<lparr>current_task := Some t\<rparr>))))"

text \<open>Lines 128--157.\<close>

definition process_next :: "'m manager \<Rightarrow> string \<Rightarrow> 'm manager" where
  "process_next st sid =
     (case map_of (queues st) sid of
        None \<Rightarrow> st
      | Some sq \<Rightarrow>
          (case queue sq of
             [] \<Rightarrow> modify_queue st sid (\<lambda>q. q\<lparr>is_processing := False\<rparr>)
           | next_msg # rest \<Rightarrow>
               (case create_task (modify_queue st sid (\<lambda>q. q\<lparr>queue := rest\<rparr>)) sid next_msg of
                  (t, st1) \<Rightarrow> modify_queue st1 sid (\<lambda>q. q\<lparr>current_task := Some t\<rparr>))))"

text \<open>
  Lines 105--126, \<open>_process_message\<close>, in its two atomic parts. The first turn of a
  created task records the current message and suspends in the processor; a task whose
  cancellation was requested before that turn ends without running any of its body. The
  last turn, when the processor has returned or raised (an error, or the
  \<open>CancelledError\<close> of a requested cancellation), runs the \<open>finally\<close> block: it clears
  the current message and calls \<open>_process_next\<close>. \<open>None\<close> means that the task is not in
  the phase the turn needs.
\<close>

definition set_task :: "'m manager \<Rightarrow> nat \<Rightarrow> ('m task \<Rightarrow> 'm task) \<Rightarrow> 'm manager" where
  "set_task st t f = st\<lparr>tasks := (tasks st)[t := f (tasks st ! t)]\<rparr>"

definition start_task :: "'m manager \<Rightarrow> nat \<Rightarrow> 'm manager option" where
  "start_task st t =
     (if t < length (tasks st) \<and> t_phase (tasks st ! t) = Created then
        (let tk = tasks st ! t in
         if t_cancel tk then Some (set_task st t (\<lambda>k. k\<lparr>t_phase := Done\<rparr>))
         else Some (modify_queue (set_task st t (\<lambda>k. k\<lparr>t_phase := Running\<rparr>)) (t_session tk)
                      (\<lambda>q. q\<lparr>current_message := Some (t_message tk)\<rparr>)))
      else None)"

definition finish_task :: "'m manager \<Rightarrow> nat \<Rightarrow> 'm manager option" where
  "finish_task st t =
     (if t < length (tasks st) \<and> t_phase (tasks st ! t) = Running then
        (let sid = t_session (tasks st ! t);
             st1 = modify_queue st sid (\<lambda>q. q\<lparr>current_message := None\<rparr>);
             st2 = process_next st1 sid
         in Some (set_task st2 t (\<lambda>k. k\<lparr>t_phase := Done\<rparr>)))
      else None)"

text \<open>Lines 165--196. \<open>task_pending\<close> is \<open>sq.current_task and not sq.current_task.done()\<close>.\<close>

definition task_pending :: "'m manager \<Rightarrow> 'm session_queue \<Rightarrow> bool" where
  "task_pending st sq =
     (case current_task sq of
        None \<Rightarrow> False
      | Some t \<Rightarrow> t < length (tasks st) \<and> t_phase (tasks st ! t) \<noteq> Done)"

definition cancel_session :: "'m manager \<Rightarrow> string \<Rightarrow> 'm list \<times> 'm manager" where
  "cancel_session st sid =
     (case map_of (queues st) sid of
        None \<Rightarrow> ([], st)
      | Some sq \<Rightarrow>
          (let pending = task_pending st sq;
               st1 = (case current_task sq of
                        Some t \<Rightarrow> if pending then set_task st t (\<lambda>k. k\<lparr>t_cancel := True\<rparr>) else st
                      | None \<Rightarrow> st);
               cancelled_messages =
                 (if pending then (case current_message sq of Some m \<Rightarrow> [m] | None \<Rightarrow> [])
                  else []) @ queue sq
           in (cancelled_messages,
               modify_queue st1 sid (\<lambda>q. q\<lparr>queue := [], is_processing := False\<rparr>))))"

text \<open>Lines 198--210.\<close>

fun cancel_sessions :: "string list \<Rightarrow> 'm manager \<Rightarrow> 'm list \<times> 'm manager" where
  "cancel_sessions [] st = ([], st)"
| "cancel_sessions (sid # sids) st =
     (case cancel_session st sid of
        (cancelled, st1) \<Rightarrow>
          (case cancel_sessions sids st1 of
             (all_cancelled, st2) \<Rightarrow> (cancelled @ all_cancelled, st2)))"

definition cancel_all :: "'m manager \<Rightarrow> 'm list \<times> 'm manager" where
  "cancel_all st = cancel_sessions (map fst (queues st)) st"

text \<open>
  The interleavings: each event is one atomic step of the loop, the method calls made by
  the callers of the manager and the two turns of every task.
\<close>

datatype 'm event =
    Enqueue string 'm
  | Start nat
  | Finish nat
  | CancelSession string
  | CancelAll

fun step :: "'m manager \<Rightarrow> 'm event \<Rightarrow> 'm manager option" where
  "step st (Enqueue sid message) = Some (snd (enqueue st sid message))"
| "step st (Start t) = start_task st t"
| "step st (Finish t) = finish_task st t"
| "step st (CancelSession sid) = Some (snd (cancel_session st sid))"
| "step st CancelAll = Some (snd (cancel_all st))"

fun run :: "'m manager \<Rightarrow> 'm event list \<Rightarrow> 'm manager option" where
  "run st [] = Some st"
| "run st (e # es) = (case step st e of None \<Rightarrow> None | Some st1 \<Rightarrow> run st1 es)"

text \<open>
  The processing tasks that own a conversation: those of the session that have been
  created and have not ended.
\<close>

definition in_flight :: "'m manager \<Rightarrow> string \<Rightarrow> nat list" where
  "in_flight st sid =
     filter (\<lambda>t. t_session (tasks st ! t) = sid \<and> t_phase (tasks st ! t) \<noteq> Done)
       [0..<length (tasks st)]"

text \<open>
  For stating what cancellation returns and leaves behind: the messages still waiting in a
  conversation's FIFO; the list \<open>cancel_session\<close> builds from a session queue (the current
  message when the current task is not done and has recorded one, then the FIFO); and a
  conversation that is neither marked busy nor has anything queued.
\<close>

definition queued_messages :: "'m manager \<Rightarrow> string \<Rightarrow> 'm list" where
  "queued_messages st sid =
     (case map_of (queues st) sid of None \<Rightarrow> [] | Some sq \<Rightarrow> queue sq)"


definition idle :: "'m manager \<Rightarrow> string \<Rightarrow> bool" where
  "idle st k \<longleftrightarrow> \<not> is_session_busy st k \<and> get_queue_size st k = 0"

text \<open>
  A conversation with a running first message and a second one queued: the state after
  \<open>enqueue\<close> of message 1, the first turn of its task, and \<open>enqueue\<close> of message 2.
\<close>

definition busy_example :: "nat manager" where
  "busy_example =
     \<lparr>queues = [(''s'', \<lparr>session_id = ''s'', queue = [2], is_processing = True,
                           current_task = Some 0, current_message = Some 1\<rparr>)],
      tasks = [\<lparr>t_session = ''s'', t_message = 1, t_phase = Running, t_cancel = False\<rparr>]\<rparr>"

text \<open>
  The invariant of the design for one conversation: it is marked busy exactly when a
  processing task owns it, and at most one does. \<open>is_cancel\<close> singles out the two
  cancelling events.
\<close>

definition single_flight :: "'m manager \<Rightarrow> string \<Rightarrow> bool" where
  "single_flight st sid \<longleftrightarrow>
     (is_session_busy st sid \<longleftrightarrow> in_flight st sid \<noteq> []) \<and> length (in_flight st sid) \<le> 1"

fun is_cancel :: "'m event \<Rightarrow> bool" where
  "is_cancel (CancelSession sid) = True"
| "is_cancel CancelAll = True"
| "is_cancel _ = False"

text \<open>
  The same invariant for all conversations at once, on the set of tasks that are alive,
  and the states in which no cancellation has been requested of any task.
\<close>

definition live :: "'m manager \<Rightarrow> string \<Rightarrow> nat set" where
  "live st sid =
     {t. t < length (tasks st) \<and> t_session (tasks st ! t) = sid \<and> t_phase (tasks st ! t) \<noteq> Done}"

definition uncancelled :: "'m manager \<Rightarrow> bool" where
  "uncancelled st \<longleftrightarrow> list_all (\<lambda>k. \<not> t_cancel k) (tasks st)"

definition owned :: "'m manager \<Rightarrow> bool" where
  "owned st \<longleftrightarrow>
     (\<forall>sid. (is_session_busy st sid \<longleftrightarrow> live st sid \<noteq> {}) \<and>
            (\<forall>a \<in> live st sid. \<forall>b \<in> live st sid. a = b))"

section \<open>Global rate limiter: \<open>messaging/limiter.py\<close>\<close>

text \<open>
  A submitted coroutine function can do anything, so what a call does is given by the
  environment: the \<open>k\<close>-th call the worker makes takes some time and returns a value or
  raises an exception. An exception is seen by the worker through \<open>str(e)\<close> and through
  its optional attribute \<open>seconds\<close>, a number when present. Time is counted in whole
  ticks; waiting never takes negative time, so the waits the environment decides (for the
  next queue item, for capacity of the \<open>AsyncLimiter\<close>, for the call itself) are natural
  numbers. \<open>asyncio.sleep(d)\<close> takes \<open>d\<close> ticks, none when \<open>d\<close> is negative.
\<close>

record exn =
  e_text :: string
  e_seconds :: "int option"

datatype 'v outcome = Return 'v | Raise exn

record 'v call =
  c_idle :: nat
  c_wait :: nat
  c_took :: nat
  c_outcome :: "'v outcome"

datatype 'v future = Pending | Result 'v | Exception exn | Cancelled

text \<open>
  The limiter with its worker. A queue item is a pair of a function (of any type \<open>'f\<close>
  that names the submitted coroutine functions) and a future, named by its position in
  \<open>futures\<close>. \<open>in_hand\<close> is the item and
  the sleep the worker holds while it sleeps after a flood error; \<open>dispatched\<close> records
  which function was called when.
\<close>

record ('f, 'v) limiter =
  task_queue :: "('f \<times> nat) list"
  futures :: "'v future list"
  paused_until :: int
  clock :: int
  calls :: nat
  in_hand :: "(('f \<times> nat) \<times> int) option"
  dispatched :: "('f \<times> int) list"

definition GlobalRateLimiter :: "('f, 'v) limiter" where
  "GlobalRateLimiter =
     \<lparr>task_queue = [], futures = [], paused_until = 0, clock = 0, calls = 0, in_hand = None,
      dispatched = []\<rparr>"

text \<open>\<open>str.lower\<close> on the ASCII letters, and the substring test \<open>sub in s\<close>.\<close>

definition lower_char :: "char \<Rightarrow> char" where
  "lower_char c =
     (if 65 \<le> (of_char c :: nat) \<and> (of_char c :: nat) \<le> 90 then char_of (of_char c + (32 :: nat))
      else c)"

fun starts_with :: "string \<Rightarrow> string \<Rightarrow> bool" where
  "starts_with s [] = True"
| "starts_with [] (p # ps) = False"
| "starts_with (c # cs) (p # ps) = (c = p \<and> starts_with cs ps)"

fun contains :: "string \<Rightarrow> string \<Rightarrow> bool" where
  "contains sub [] = (sub = [])"
| "contains sub (c # cs) = (starts_with (c # cs) sub \<or> contains sub cs)"

text \<open>Lines 89--90: the test for a flood-control error.\<close>

definition is_flood :: "exn \<Rightarrow> bool" where
  "is_flood e =
     (let error_msg = map lower_char (e_text e)
      in contains ''flood'' error_msg \<or> contains ''wait'' error_msg)"

text \<open>Lines 92--98: the wait-seconds hint, 30 when the exception has none.\<close>

definition flood_seconds :: "exn \<Rightarrow> int" where
  "flood_seconds e = (case e_seconds e of Some s \<Rightarrow> s | None \<Rightarrow> 30)"

text \<open>\<open>if not future.done(): future.set_result(...)\<close> or \<open>set_exception(...)\<close>.\<close>

definition settle :: "'v future list \<Rightarrow> nat \<Rightarrow> 'v future \<Rightarrow> 'v future list" where
  "settle fs future v =
     (if future < length fs \<and> fs ! future = Pending then fs[future := v] else fs)"

text \<open>Lines 121--130, up to the \<open>await future\<close>: the future created and the new state.\<close>

definition limiter_enqueue :: "('f, 'v) limiter \<Rightarrow> 'f \<Rightarrow> nat \<times> ('f, 'v) limiter" where
  "limiter_enqueue st func =
     (let future = length (futures st)
      in (future, st\<lparr>futures := futures st @ [Pending],
                      task_queue := task_queue st @ [(func, future)]\<rparr>))"

text \<open>
  Lines 67--114, one turn of the worker's loop from \<open>queue.get()\<close> on, up to the sleep
  after a flood error or to the end of the iteration. \<open>None\<close>: the worker is asleep, or
  blocked on an empty queue.
\<close>

definition worker_take ::
  "(nat \<Rightarrow> 'v call) \<Rightarrow> ('f, 'v) limiter \<Rightarrow> ('f, 'v) limiter option" where
  "worker_take env st =
     (case in_hand st of
        Some h \<Rightarrow> None
      | None \<Rightarrow>
          (case task_queue st of
             [] \<Rightarrow> None
           | (func, future) # rest \<Rightarrow>
               (let c = env (calls st);
                    now = clock st + int (c_idle c);
                    resumed = (if paused_until st > now then now + (paused_until st - now)
                               else now);
                    started = resumed + int (c_wait c);
                    ended = started + int (c_took c);
                    st1 = st\<lparr>task_queue := rest, calls := Suc (calls st), clock := ended,
                             dispatched := dispatched st @ [(func, started)]\<rparr>
                in case c_outcome c of
                     Return result \<Rightarrow>
                       Some (st1\<lparr>futures := settle (futures st) future (Result result)\<rparr>)
                   | Raise e \<Rightarrow>
                       if is_flood e then
                         Some (st1\<lparr>paused_until := ended + flood_seconds e,
                                    in_hand := Some ((func, future), flood_seconds e)\<rparr>)
                       else
                         Some (st1\<lparr>futures := settle (futures st) future (Exception e)\<rparr>))))"

text \<open>Lines 107--109: the end of the sleep, and the item put back.\<close>

definition worker_wake :: "('f, 'v) limiter \<Rightarrow> ('f, 'v) limiter option" where
  "worker_wake st =
     (case in_hand st of
        None \<Rightarrow> None
      | Some (item, seconds) \<Rightarrow>
          Some (st\<lparr>clock := clock st + max 0 seconds,
                    task_queue := task_queue st @ [item],
                    in_hand := None\<rparr>))"

text \<open>
  One iteration of the worker with nothing submitted in between, and \<open>n\<close> of them.
\<close>

definition worker_iteration ::
  "(nat \<Rightarrow> 'v call) \<Rightarrow> ('f, 'v) limiter \<Rightarrow> ('f, 'v) limiter option" where
  "worker_iteration env st =
     (case worker_take env st of
        None \<Rightarrow> None
      | Some st1 \<Rightarrow> (case in_hand st1 of None \<Rightarrow> Some st1 | Some h \<Rightarrow> worker_wake st1))"

fun worker_run ::
  "(nat \<Rightarrow> 'v call) \<Rightarrow> nat \<Rightarrow> ('f, 'v) limiter \<Rightarrow> ('f, 'v) limiter option" where
  "worker_run env 0 st = Some st"
| "worker_run env (Suc n) st =
     (case worker_iteration env st of None \<Rightarrow> None | Some st1 \<Rightarrow> worker_run env n st1)"

text \<open>
  Submissions that arrive one after the other, and the time at which the call made from
  a state ends.
\<close>

definition submit_all :: "('f, 'v) limiter \<Rightarrow> 'f list \<Rightarrow> ('f, 'v) limiter" where
  "submit_all st funcs = foldl (\<lambda>s func. snd (limiter_enqueue s func)) st funcs"

definition call_ended :: "(nat \<Rightarrow> 'v call) \<Rightarrow> ('f, 'v) limiter \<Rightarrow> int" where
  "call_ended env st =
     max (clock st + int (c_idle (env (calls st)))) (paused_until st)
       + int (c_wait (env (calls st))) + int (c_took (env (calls st)))"



section \<open>Tag-segment extractor\<close>

text \<open>
  Modelled from the spec: the tag-segment extractor (\<open>ThinkTagParser\<close> of
  \<open>providers/utils/think_parser.py\<close>) is not among the sources; only its tests in
  \<open>tests/test_parsers.py\<close> are, which fix the delimiter pair and the names \<open>feed\<close>,
  \<open>TEXT\<close> and \<open>THINKING\<close>. The spec (4.3): the extractor scans for the delimiter pair and
  partitions the incoming text into typed segments, ordinary text and delimited thinking
  content, emitted as soon as they are determined; when a feed ends inside a delimiter it
  keeps the undecided suffix and resolves it on the next feed; all its state lives in the
  instance. So the instance holds the kept suffix and whether the scan is inside the
  delimiters; \<open>feed\<close> scans the kept suffix followed by the new text from left to right:
  at the expected delimiter it closes the segment collected so far and changes side; when
  all that remains is a proper beginning of the expected delimiter it keeps it; any other
  character joins the segment collected so far.
\<close>

datatype content_type = TEXT | THINKING

type_synonym segment = "content_type \<times> string"

record think_parser =
  buffer :: string
  in_think :: bool

definition ThinkTagParser :: think_parser where
  "ThinkTagParser = \<lparr>buffer = [], in_think = False\<rparr>"

definition expected_tag :: "bool \<Rightarrow> string" where
  "expected_tag inside = (if inside then ''</think>'' else ''<think>'')"

definition emit :: "bool \<Rightarrow> string \<Rightarrow> segment list" where
  "emit inside content =
     (if content = [] then [] else [(if inside then THINKING else TEXT, content)])"

function scan :: "bool \<Rightarrow> string \<Rightarrow> string \<Rightarrow> segment list \<times> bool \<times> string" where
  "scan inside acc [] = (emit inside acc, inside, [])"
| "scan inside acc (c # cs) =
     (if starts_with (c # cs) (expected_tag inside) then
        (case scan (\<not> inside) [] (drop (length (expected_tag inside)) (c # cs)) of
           (segs, st) \<Rightarrow> (emit inside acc @ segs, st))
      else if starts_with (expected_tag inside) (c # cs) then (emit inside acc, inside, c # cs)
      else scan inside (acc @ [c]) cs)"
  by pat_completeness auto
termination
  by (relation "measure (\<lambda>(inside, acc, s). length s)") (auto simp: expected_tag_def)

definition feed :: "think_parser \<Rightarrow> string \<Rightarrow> segment list \<times> think_parser" where
  "feed p text =
     (case scan (in_think p) [] (buffer p @ text) of
        (segs, inside, held) \<Rightarrow> (segs, \<lparr>buffer = held, in_think = inside\<rparr>))"

text \<open>Consecutive feed calls on one instance, with everything they emit.\<close>

fun feeds :: "think_parser \<Rightarrow> string list \<Rightarrow> segment list \<times> think_parser" where
  "feeds p [] = ([], p)"
| "feeds p (text # texts) =
     (case feed p text of
        (segs, p1) \<Rightarrow> (case feeds p1 texts of (segs', p2) \<Rightarrow> (segs @ segs', p2)))"

text \<open>
  The emitted characters, each with the type of its segment: two segment lists with the
  same typed characters have the same concatenated contents, and text turns into thinking
  and back at the same positions.
\<close>

definition typed_chars :: "segment list \<Rightarrow> (content_type \<times> char) list" where
  "typed_chars segs = concat (map (\<lambda>(ty, content). map (Pair ty) content) segs)"

section \<open>Outbound sends of the message handler: \<open>messaging/handler.py\<close>\<close>

text \<open>
  The handler talks to the chat platform through the two sending methods of
  \<open>MessagingPlatform\<close> (\<open>messaging/base.py\<close>): \<open>send_message(chat_id, text, reply_to,
  parse_mode)\<close> and \<open>edit_message(chat_id, message_id, text, parse_mode)\<close>.
\<close>

datatype outbound =
    SendMessage string pystr "string option" "string option"
  | EditMessage string string pystr "string option"

text \<open>
  Modelled from the spec: the platform adapters that implement \<open>MessagingPlatform\<close> are
  not among the sources; only the abstract class and its caller, the handler, are. The
  spec (2 and 4.4): the Global Rate Limiter serializes all outbound platform sends through
  one admission queue shared by all conversations, and \<open>enqueue(task)\<close> submits a task and
  returns its result. So a call of a sending method submits the send to the limiter, and
  its result is that of the future.
\<close>

definition platform_call ::
  "(outbound, 'v) limiter \<Rightarrow> outbound \<Rightarrow> nat \<times> (outbound, 'v) limiter" where
  "platform_call st ob = limiter_enqueue st ob"

text \<open>\<open>str(n)\<close> of a count, as the f-strings format it.\<close>

function decimal :: "nat \<Rightarrow> pystr" where
  "decimal n = (if n < 10 then [48 + n] else decimal (n div 10) @ [48 + n mod 10])"
  by pat_completeness auto
termination
  by (relation "measure id") auto

declare decimal.simps [simp del]

text \<open>
  Lines 287--298. The two session counts come from \<open>cli_manager.get_stats()\<close>, which is
  not among the sources, and are parameters.
\<close>

definition get_initial_status :: "'m manager \<Rightarrow> string option \<Rightarrow> nat \<Rightarrow> nat \<Rightarrow> pystr" where
  "get_initial_status message_queue session_id_opt active_sessions max_sessions =
     (case (case session_id_opt of Some sid \<Rightarrow> if sid \<noteq> [] then Some sid else None | None \<Rightarrow> None) of
        Some sid \<Rightarrow>
          if is_session_busy message_queue sid then
            (let queue_size = get_queue_size message_queue sid + 1
             in [128203] @ ascii '' **Queued** (position '' @ decimal queue_size
                @ ascii '') - waiting...'')
          else [128260] @ ascii '' **Continuing conversation...**''
      | None \<Rightarrow>
          if active_sessions \<ge> max_sessions then
            [9203] @ ascii '' **Waiting for slot...** ('' @ decimal active_sessions @ ascii ''/''
              @ decimal max_sessions @ ascii '')''
          else [9203] @ ascii '' **Launching new Claude CLI instance...**'')"

text \<open>Lines 300--315: the replies to the two commands.\<close>

definition stop_reply :: "string \<Rightarrow> nat \<Rightarrow> outbound" where
  "stop_reply chat_id n =
     SendMessage chat_id
       ([9209] @ ascii '' **Stopped.** Cancelled '' @ decimal n @ ascii '' pending messages.'')
       None None"

definition stats_reply :: "string \<Rightarrow> nat \<Rightarrow> nat \<Rightarrow> outbound" where
  "stats_reply chat_id active_sessions max_sessions =
     SendMessage chat_id
       ([128202] @ ascii '' **Stats**'' @ newline @ [8226] @ ascii '' Active: ''
          @ decimal active_sessions @ newline @ [8226] @ ascii '' Max: '' @ decimal max_sessions)
       None None"

text \<open>
  Lines 59--92, \<open>handle_message\<close> up to its first platform call, if it makes one: the
  reply to a command, nothing for a message that starts with one of the handler's own
  status marks, the initial status message otherwise. \<open>session_id_to_resume\<close> is what the
  session store (not among the sources) found for a reply.
\<close>

definition handle_message_call ::
  "'m manager \<Rightarrow> pystr \<Rightarrow> string \<Rightarrow> string \<Rightarrow> string option \<Rightarrow> nat \<Rightarrow> nat
     \<Rightarrow> outbound option" where
  "handle_message_call message_queue incoming_text chat_id message_id session_id_to_resume
       active_sessions max_sessions =
     (if incoming_text = ascii ''/stop'' then
        Some (stop_reply chat_id (length (fst (cancel_all message_queue))))
      else if incoming_text = ascii ''/stats'' then
        Some (stats_reply chat_id active_sessions max_sessions)
      else if (case incoming_text of
                 [] \<Rightarrow> False
               | c # cs \<Rightarrow> c \<in> set [9203, 128173, 128295, 9989, 10060, 128640, 129302,
                                     128203, 128202, 128260])
      then None
      else Some (SendMessage chat_id
                   (get_initial_status message_queue session_id_to_resume active_sessions
                      max_sessions)
                   (Some message_id) None))"

text \<open>
  Lines 146--162, \<open>update_ui\<close>: the edit it asks the platform for, if any. Times are
  seconds.
\<close>

definition update_ui_call ::
  "real \<Rightarrow> real \<Rightarrow> real \<Rightarrow> (string \<times> pystr) list \<Rightarrow> pystr option \<Rightarrow> bool \<Rightarrow> string \<Rightarrow> string
     \<Rightarrow> outbound option" where
  "update_ui_call flood_wait_until last_ui_update now message_parts status force chat_id
       status_msg_id =
     (if now < flood_wait_until then None
      else if \<not> force \<and> now - last_ui_update < 1 then None
      else (let display = build_message message_parts status
            in if display \<noteq> [] then
                 Some (EditMessage chat_id status_msg_id display (Some ''markdown''))
               else None))"

text \<open>
  A platform call made by the handler: the first call of a \<open>handle_message\<close>, or the edit
  of a UI flush. The turns of all conversations interleave; \<open>perform_all\<close> makes
  the calls of a sequence of such steps in the order in which they happen.
\<close>

datatype 'm handler_step =
    Incoming "'m manager" pystr string string "string option" nat nat
  | UiFlush real real real "(string \<times> pystr) list" "pystr option" bool string string

fun handler_call :: "'m handler_step \<Rightarrow> outbound option" where
  "handler_call (Incoming mq incoming_text chat_id message_id session_id_opt a m) =
     handle_message_call mq incoming_text chat_id message_id session_id_opt a m"
| "handler_call (UiFlush flood_wait_until last_ui_update now parts status force chat_id
       status_msg_id) =
     update_ui_call flood_wait_until last_ui_update now parts status force chat_id status_msg_id"

definition perform ::
  "(outbound, 'v) limiter \<Rightarrow> 'm handler_step \<Rightarrow> (outbound, 'v) limiter" where
  "perform st s =
     (case handler_call s of None \<Rightarrow> st | Some ob \<Rightarrow> snd (platform_call st ob))"

definition perform_all ::
  "(outbound, 'v) limiter \<Rightarrow> 'm handler_step list \<Rightarrow> (outbound, 'v) limiter" where
  "perform_all st steps = foldl perform st steps"

text \<open>The platform calls of a sequence of handler steps, in order.\<close>

definition calls_of :: "'m handler_step list \<Rightarrow> outbound list" where
  "calls_of steps = List.map_filter handler_call steps"

text \<open>An environment in which every call returns at once.\<close>

definition always_ok :: "nat \<Rightarrow> string call" where
  "always_ok k = \<lparr>c_idle = 0, c_wait = 0, c_took = 0, c_outcome = Return ''1''\<rparr>"

section \<open>Properties of the event classifier\<close>








lemma falsy_iff: "falsy v \<longleftrightarrow> \<not> truthy v"
  by (cases v) (auto simp: falsy_def)

lemma full_message_msg_obj:
  assumes "full_message ev m"
  shows "msg_obj_of ev = PDict m"
proof -
  from assms consider
      (assistant) "map_of ev ''type'' = Some (PStr ''assistant'')"
        "map_of ev ''message'' = Some (PDict m)"
    | (wrapped) r where "map_of ev ''type'' = Some (PStr ''result'')"
        "map_of ev ''result'' = Some (PDict r)" "map_of r ''message'' = Some (PDict m)"
    | (own) "map_of ev ''type'' = Some (PStr ''result'')"
        "map_of ev ''message'' = Some (PDict m)"
        "\<forall>r v. map_of ev ''result'' = Some (PDict r) \<and> map_of r ''message'' = Some v
           \<longrightarrow> falsy v"
    unfolding full_message_def by blast
  then show ?thesis
  proof cases
    case assistant
    then show ?thesis by (simp add: msg_obj_of_def dict_get_def)
  next
    case wrapped
    moreover have "m \<noteq> []" using assms by (simp add: full_message_def)
    ultimately show ?thesis by (simp add: msg_obj_of_def dict_get_def)
  next
    case own
    have "\<not> truthy (case dict_get ev ''result'' of PDict r \<Rightarrow> dict_get r ''message''
                      | _ \<Rightarrow> PNone)"
    proof (cases "dict_get ev ''result''")
      case (PDict r)
      then have res: "map_of ev ''result'' = Some (PDict r)"
        by (simp add: dict_get_def split: option.splits)
      show ?thesis
      proof (cases "map_of r ''message''")
        case None
        then show ?thesis using PDict by (simp add: dict_get_def)
      next
        case (Some v)
        then have "falsy v" using own(3) res by blast
        then show ?thesis using PDict Some by (simp add: dict_get_def falsy_iff)
      qed
    qed simp_all
    then show ?thesis using own(1,2) by (simp add: msg_obj_of_def Let_def dict_get_def)
  qed
qed

lemma full_message_type:
  "full_message ev m \<Longrightarrow>
   dict_get ev ''type'' = PStr ''assistant'' \<or> dict_get ev ''type'' = PStr ''result''"
  by (auto simp: full_message_def dict_get_def)

lemma message_event_falls_to_none:
  assumes "dict_get ev ''type'' = PStr ''assistant'' \<or> dict_get ev ''type'' = PStr ''result''"
  shows "parse_delta ev = None" "parse_block_start ev = Inr None"
    "parse_error_exit py_str ev = PNone"
  using assms by (auto simp: parse_delta_def parse_block_start_def parse_error_exit_def Let_def)


text \<open>
  The claim lets the \<open>content\<close> chunk be emitted only if the thinking or the text is
  non-empty. The code tests the lists of items, not the strings they carry: an assistant
  turn whose only content item is a text item with the empty string has no tool item, no
  thinking item and no non-empty text, and still gives a \<open>content\<close> chunk, with the empty
  text.
\<close>

theorem parse_event_empty_text_counterexample:
  "full_message [(''type'', PStr ''assistant''),
      (''message'', PDict [(''content'', PList
          [PDict [(''type'', PStr ''text''), (''text'', PStr [])]])])]
     [(''content'', PList [PDict [(''type'', PStr ''text''), (''text'', PStr [])]])]
   \<and> item_dicts ''tool_use'' [PDict [(''type'', PStr ''text''), (''text'', PStr [])]] = []
   \<and> item_dicts ''thinking'' [PDict [(''type'', PStr ''text''), (''text'', PStr [])]] = []
   \<and> map (payload ''text'')
        (item_dicts ''text'' [PDict [(''type'', PStr ''text''), (''text'', PStr [])]])
      = [PStr []]
   \<and> parse_event (\<lambda>v. []) (PDict [(''type'', PStr ''assistant''),
      (''message'', PDict [(''content'', PList
          [PDict [(''type'', PStr ''text''), (''text'', PStr [])]])])])
     = Inr (PDict [(''text'', PStr []), (''type'', PStr ''content'')])"
  by (simp add: full_message_def payload_def parse_event_def msg_obj_of_def parse_message_def
      py_join_def dict_get_def dict_get_default_def)


text \<open>
  A message whose \<open>content\<close> is present and not a list has no content items to decompose:
  the event falls through to \<open>None\<close>.
\<close>

lemma parse_event_content_not_list:
  assumes "full_message ev m" "map_of m ''content'' = Some c" "\<forall>items. c \<noteq> PList items"
  shows "parse_event py_str (PDict ev) = Inr PNone"
proof -
  have "parse_message (PDict m) = Inr None"
    using assms by (cases c) (simp_all add: parse_message_def dict_get_default_def)
  then show ?thesis
    using full_message_msg_obj[OF assms(1)]
      message_event_falls_to_none[OF full_message_type[OF assms(1)]]
    by (simp add: parse_event_def)
qed

text \<open>
  Claim C7. For every event whose \<open>type\<close> is \<open>exit\<close>, \<open>parse_event\<close> returns a \<open>complete\<close>
  chunk; its status is \<open>success\<close> exactly when the \<open>code\<close> field is present and equals zero
  under Python's \<open>==\<close> (the int \<open>0\<close>, and with it \<open>0.0\<close> and \<open>False\<close>), and \<open>failed\<close> in
  every other case, an absent \<open>code\<close> among them.
\<close>

theorem parse_event_exit_status:
  assumes "dict_get ev ''type'' = PStr ''exit''"
  shows "parse_event py_str (PDict ev) =
         Inr (PDict [(''type'', PStr ''complete''),
                     (''status'',
                      PStr (if map_of ev ''code'' \<in>
                                 {Some (PInt 0), Some (PFloat 0), Some (PBool False)}
                            then ''success'' else ''failed''))])"
proof -
  have m: "msg_obj_of ev = PNone" using assms by (simp add: msg_obj_of_def)
  have d: "parse_delta ev = None" using assms by (simp add: parse_delta_def)
  have b: "parse_block_start ev = Inr None" using assms by (simp add: parse_block_start_def)
  have z: "py_eq_int (dict_get ev ''code'') 0 \<longleftrightarrow>
           map_of ev ''code'' \<in> {Some (PInt 0), Some (PFloat 0), Some (PBool False)}"
    by (cases "map_of ev ''code''"; cases "the (map_of ev ''code'')") (auto simp: dict_get_def)
  show ?thesis
    using assms
    by (simp add: parse_event_def m d b parse_message_def parse_error_exit_def z del: insert_iff)
qed

theorem parse_event_exit_status_witness:
  "parse_event (\<lambda>v. []) (PDict [(''type'', PStr ''exit''), (''code'', PInt 0)])
     = Inr (PDict [(''type'', PStr ''complete''), (''status'', PStr ''success'')])
   \<and> parse_event (\<lambda>v. []) (PDict [(''type'', PStr ''exit''), (''code'', PInt 1)])
     = Inr (PDict [(''type'', PStr ''complete''), (''status'', PStr ''failed'')])
   \<and> parse_event (\<lambda>v. []) (PDict [(''type'', PStr ''exit'')])
     = Inr (PDict [(''type'', PStr ''complete''), (''status'', PStr ''failed'')])"
  using parse_event_exit_status[of "[(''type'', PStr ''exit''), (''code'', PInt 0)]" "\<lambda>v. []"]
        parse_event_exit_status[of "[(''type'', PStr ''exit''), (''code'', PInt 1)]" "\<lambda>v. []"]
        parse_event_exit_status[of "[(''type'', PStr ''exit'')]" "\<lambda>v. []"]
  by (simp add: dict_get_def)

text \<open>
  The defensive part of the classifier: a value that is not a dict, and a dict whose
  \<open>type\<close> is none of the six recognised ones, give \<open>None\<close>.
\<close>

lemma parse_event_non_dict:
  "(\<forall>d. event \<noteq> PDict d) \<Longrightarrow> parse_event py_str event = Inr PNone"
  by (cases event) (simp_all add: parse_event_def)

lemma parse_event_unrecognised_type:
  assumes "dict_get ev ''type'' \<notin> PStr ` {''assistant'', ''result'', ''content_block_delta'',
              ''content_block_start'', ''error'', ''exit''}"
  shows "parse_event py_str (PDict ev) = Inr PNone"
  using assms
  by (simp add: parse_event_def msg_obj_of_def parse_message_def parse_delta_def
      parse_block_start_def parse_error_exit_def)

text \<open>
  A text item whose \<open>text\<close> is not a string makes \<open>"".join(parts)\<close> raise.
\<close>

lemma parse_event_raises_on_text_shape:
  "parse_event py_str (PDict [(''type'', PStr ''assistant''),
      (''message'', PDict [(''content'', PList
          [PDict [(''type'', PStr ''text''), (''text'', PNone)]])])])
   = Inl TypeError"
  by (simp add: parse_event_def msg_obj_of_def parse_message_def py_join_def
      dict_get_def dict_get_default_def)

text \<open>
  Claim C10 says that \<open>parse_event\<close> never raises, whatever the shape of the nested fields,
  \<open>input\<close> among them. On a block-start event for the \<open>Task\<close> tool whose \<open>input\<close> is
  \<open>None\<close>, line 92 calls \<open>.get\<close> on \<open>None\<close> and the function raises \<open>AttributeError\<close>
  instead of returning.
\<close>

theorem parse_event_raises_on_input_shape:
  "parse_event (\<lambda>v. []) (PDict [(''type'', PStr ''content_block_start''),
      (''content_block'', PDict [(''type'', PStr ''tool_use''), (''name'', PStr ''Task''),
                                 (''input'', PNone)])])
   = Inl AttributeError"
  by (simp add: parse_event_def msg_obj_of_def parse_message_def parse_delta_def
      parse_block_start_def task_description_def dict_get_def dict_get_default_def)

section \<open>Properties of the rendered message\<close>


lemma take3_append_fence:
  "r \<noteq> [] \<Longrightarrow> take 3 (r @ 10 # fence) = fence \<longleftrightarrow> take 3 r = fence"
  by (cases r; cases "tl r"; cases "tl (tl r)") (auto simp: fence_def)

lemma fence_length: "length fence = 3"
  by (simp add: fence_def)

lemma fence_not_Nil: "fence \<noteq> []"
  by (simp add: fence_def)

lemma py_count_fence_hit:
  "s \<noteq> [] \<Longrightarrow> take 3 s = fence \<Longrightarrow> py_count fence s = Suc (py_count fence (drop 3 s))"
  by (subst py_count.simps) (simp add: fence_length fence_not_Nil)

lemma py_count_fence_miss:
  "s \<noteq> [] \<Longrightarrow> take 3 s \<noteq> fence \<Longrightarrow> py_count fence s = py_count fence (tl s)"
  by (subst py_count.simps) (simp add: fence_length fence_not_Nil)

lemma py_count_fence_Nil: "py_count fence [] = 0"
  by (subst py_count.simps) (simp add: fence_def)

lemma py_count_fence_closed:
  "py_count fence (r @ newline @ fence) = Suc (py_count fence r)"
proof (induction r rule: length_induct)
  case (1 r)
  show ?case
  proof (cases "r = []")
    case True
    have "py_count fence (newline @ fence) = py_count fence fence"
      using py_count_fence_miss[of "newline @ fence"] by (simp add: fence_def newline_def)
    also have "\<dots> = Suc (py_count fence [])"
      using py_count_fence_hit[of fence] by (simp add: fence_def)
    finally show ?thesis using True by (simp add: py_count_fence_Nil)
  next
    case False
    then have ne: "r @ newline @ fence \<noteq> []" by simp
    show ?thesis
    proof (cases "take 3 r = fence")
      case True
      then have "length (take 3 r) = 3" by (simp add: fence_def)
      then have l3: "3 \<le> length r" by simp
      have t: "take 3 (r @ newline @ fence) = fence" using True l3 by simp
      have d: "drop 3 (r @ newline @ fence) = drop 3 r @ newline @ fence" using l3 by simp
      have "py_count fence (r @ newline @ fence) = Suc (py_count fence (drop 3 r @ newline @ fence))"
        using py_count_fence_hit[OF ne t] d by simp
      also have "py_count fence (drop 3 r @ newline @ fence) = Suc (py_count fence (drop 3 r))"
        using 1 False by simp
      also have "Suc (py_count fence (drop 3 r)) = py_count fence r"
        using py_count_fence_hit[OF False True] by simp
      finally show ?thesis .
    next
      case nf: False
      have t: "take 3 (r @ newline @ fence) \<noteq> fence"
        using take3_append_fence[OF False] nf by (simp add: newline_def)
      have tl: "tl (r @ newline @ fence) = tl r @ newline @ fence" using False by simp
      have "py_count fence (r @ newline @ fence) = py_count fence (tl r @ newline @ fence)"
        using py_count_fence_miss[OF ne t] tl by simp
      also have "\<dots> = Suc (py_count fence (tl r))"
        using 1 False by simp
      also have "py_count fence (tl r) = py_count fence r"
        using py_count_fence_miss[OF False nf] by simp
      finally show ?thesis .
    qed
  qed
qed

lemma py_count_no_backtick:
  "96 \<notin> set s \<Longrightarrow> py_count fence s = 0"
proof (induction s)
  case Nil
  then show ?case by (simp add: py_count_fence_Nil)
next
  case (Cons a s)
  then have "take 3 (a # s) \<noteq> fence" by (cases s; cases "tl s") (auto simp: fence_def)
  then show ?case using Cons py_count_fence_miss[of "a # s"] by simp
qed

text \<open>
  Claim C8. Whenever the rendered display buffer is longer than 3800 characters, the
  message built is an ellipsis followed by the last 3795 characters of the rendering (the
  front is dropped, the tail kept), followed by a closing fence on a line of its own
  exactly when the truncated text holds an odd number of fence markers; in both cases the
  message built holds an even number of fence markers, counted as \<open>str.count\<close> does.
\<close>

theorem build_message_truncation:
  assumes "length (render parts status) > 3800"
  shows "(\<exists>closing. (closing = [] \<or> closing = newline @ fence) \<and>
           build_message parts status =
             (ascii ''...'' @ drop (length (render parts status) - 3795) (render parts status))
               @ closing \<and>
           (closing = [] \<longleftrightarrow>
              even (py_count fence
                (ascii ''...'' @
                   drop (length (render parts status) - 3795) (render parts status))))) \<and>
         even (py_count fence (build_message parts status))"
proof -
  let ?r = "render parts status"
  let ?t = "ascii ''...'' @ drop (length ?r - 3795) ?r"
  have odd_case: "build_message parts status = ?t @ newline @ fence"
    if "odd (py_count fence ?t)"
    using assms that
    by (simp add: build_message_def truncate_message_def Let_def even_iff_mod_2_eq_zero)
  have even_case: "build_message parts status = ?t"
    if "even (py_count fence ?t)"
    using assms that
    by (simp add: build_message_def truncate_message_def Let_def even_iff_mod_2_eq_zero)
  have shape: "\<exists>closing. (closing = [] \<or> closing = newline @ fence) \<and>
           build_message parts status = ?t @ closing \<and>
           (closing = [] \<longleftrightarrow> even (py_count fence ?t))"
  proof (cases "even (py_count fence ?t)")
    case True
    with even_case show ?thesis by (intro exI[of _ "[]"]) simp
  next
    case False
    with odd_case show ?thesis by (intro exI[of _ "newline @ fence"]) (simp add: newline_def)
  qed
  have parity: "even (py_count fence (build_message parts status))"
  proof (cases "even (py_count fence ?t)")
    case True
    with even_case show ?thesis by simp
  next
    case False
    with odd_case have "py_count fence (build_message parts status) = Suc (py_count fence ?t)"
      using py_count_fence_closed[of ?t] by simp
    with False show ?thesis by simp
  qed
  from shape parity show ?thesis by (rule conjI)
qed

text \<open>A rendering of at most 3800 characters is returned as it is.\<close>

lemma build_message_short:
  "length (render parts status) \<le> 3800 \<Longrightarrow> build_message parts status = render parts status"
  by (simp add: build_message_def truncate_message_def)

lemma py_count_fence_replicate:
  "py_count fence (replicate (3 * n) 96) = n"
proof (induction n)
  case 0
  then show ?case by (simp add: py_count_fence_Nil)
next
  case (Suc n)
  have r: "replicate (3 * Suc n) (96::nat) = fence @ replicate (3 * n) 96"
    by (simp add: fence_def numeral_3_eq_3)
  have "py_count fence (fence @ replicate (3 * n) 96)
          = Suc (py_count fence (drop 3 (fence @ replicate (3 * n) 96)))"
    by (rule py_count_fence_hit) (simp_all add: fence_def)
  also have "drop 3 (fence @ replicate (3 * n) 96) = replicate (3 * n) 96"
    by (simp add: fence_def)
  finally show ?case by (simp only: r Suc)
qed

lemma py_count_fence_dots:
  "py_count fence (ascii ''...'' @ s) = py_count fence s"
proof -
  have a: "py_count fence (46 # t) = py_count fence t" for t
    using py_count_fence_miss[of "46 # t"]
    by (cases t; cases "tl t") (auto simp: fence_def)
  show ?thesis by (simp add: ascii_def a)
qed

theorem build_message_truncation_witness:
  "length (render [(''content'', replicate 3798 96)] (Some (ascii ''ok''))) > 3800 \<and>
   build_message [(''content'', replicate 3798 96)] (Some (ascii ''ok'')) =
     ascii ''...'' @ replicate 3795 96 @ newline @ fence \<and>
   even (py_count fence (build_message [(''content'', replicate 3798 96)] (Some (ascii ''ok''))))"
proof -
  let ?parts = "[(''content'', replicate 3798 (96::nat))]"
  let ?status = "Some (ascii ''ok'')"
  have r: "render ?parts ?status = ascii ''ok'' @ [10, 10] @ replicate 3798 96"
    by (simp add: render_def part_line_def List.map_filter_simps newline_def ascii_def)
  have len: "length (render ?parts ?status) > 3800"
    unfolding r by (simp add: ascii_def)
  have kept: "drop (length (render ?parts ?status) - 3795) (render ?parts ?status)
                = replicate 3795 96"
    unfolding r by (simp add: ascii_def)
  have "py_count fence (replicate (3 * 1265) 96) = 1265"
    by (rule py_count_fence_replicate)
  then have odd: "odd (py_count fence (ascii ''...'' @ replicate 3795 96))"
    by (simp add: py_count_fence_dots)
  from build_message_truncation[OF len] obtain closing where
    c: "closing = [] \<or> closing = newline @ fence"
    and b: "build_message ?parts ?status = (ascii ''...'' @ replicate 3795 96) @ closing"
    and e: "closing = [] \<longleftrightarrow> even (py_count fence (ascii ''...'' @ replicate 3795 96))"
    unfolding kept by blast
  from c e odd have "closing = newline @ fence" by blast
  with b have "build_message ?parts ?status = ascii ''...'' @ replicate 3795 96 @ newline @ fence"
    by simp
  with len build_message_truncation[OF len] show ?thesis by blast
qed


section \<open>Properties of the session queue manager\<close>

lemma map_of_modify_list:
  "map_of (map (\<lambda>(k, sq). if k = sid then (k, f sq) else (k, sq)) qs) k' =
     (if k' = sid then map_option f (map_of qs k') else map_of qs k')"
  by (induction qs) auto

lemma map_of_modify_queue:
  "map_of (queues (modify_queue st sid f)) k =
     (if k = sid then map_option f (map_of (queues st) k) else map_of (queues st) k)"
  by (simp add: modify_queue_def map_of_modify_list)

lemma keys_modify_list:
  "map fst (map (\<lambda>(k, sq). if k = sid then (k, f sq) else (k, sq)) qs) = map fst qs"
  by (induction qs) auto

lemma keys_modify_queue: "map fst (queues (modify_queue st sid f)) = map fst (queues st)"
proof -
  have "queues (modify_queue st sid f) =
          map (\<lambda>(k, sq). if k = sid then (k, f sq) else (k, sq)) (queues st)"
    by (simp add: modify_queue_def)
  then show ?thesis by (simp only: keys_modify_list)
qed

lemma tasks_modify_queue: "tasks (modify_queue st sid f) = tasks st"
  by (simp add: modify_queue_def)

lemma queues_set_task: "queues (set_task st t f) = queues st"
  by (simp add: set_task_def)


lemma length_tasks_set_task: "length (tasks (set_task st t f)) = length (tasks st)"
  by (simp add: set_task_def)





lemma cancel_session_keys:
  "map fst (queues (snd (cancel_session st sid))) = map fst (queues st)"
  by (auto simp: cancel_session_def Let_def keys_modify_queue queues_set_task
      split: option.splits)











text \<open>The example state is one the manager reaches.\<close>

lemma busy_example_reachable:
  "run MessageQueueManager [Enqueue ''s'' 1, Start 0, Enqueue ''s'' 2] = Some busy_example"
  by (simp add: MessageQueueManager_def busy_example_def enqueue_def get_or_create_queue_def
      SessionQueue_def modify_queue_def create_task_def start_task_def set_task_def)




text \<open>
  What \<open>enqueue\<close> and \<open>_process_next\<close> do in terms of the busy flag: an idle
  conversation is marked busy, a task for the message is created and \<open>False\<close> is returned;
  on a busy one the message goes to the back of the FIFO and \<open>True\<close> is returned; a
  finishing task starts the head of the FIFO, or clears the flag when the FIFO is empty.
\<close>

lemma create_task_simps:
  "fst (create_task st sid m) = length (tasks st)"
  "queues (snd (create_task st sid m)) = queues st"
  "tasks (snd (create_task st sid m)) =
     tasks st @ [\<lparr>t_session = sid, t_message = m, t_phase = Created, t_cancel = False\<rparr>]"
  by (simp_all add: create_task_def)

lemma map_of_get_or_create:
  "map_of (queues (fst (get_or_create_queue st sid))) k =
     (if k = sid then Some (snd (get_or_create_queue st sid)) else map_of (queues st) k)"
  by (simp add: get_or_create_queue_def map_add_def split: option.splits)

lemma get_or_create_busy:
  "is_processing (snd (get_or_create_queue st sid)) = is_session_busy st sid"
  by (simp add: get_or_create_queue_def is_session_busy_def SessionQueue_def split: option.splits)

lemma get_or_create_queue_of:
  "queue (snd (get_or_create_queue st sid)) = queued_messages st sid"
  by (simp add: get_or_create_queue_def queued_messages_def SessionQueue_def split: option.splits)

lemma tasks_get_or_create: "tasks (fst (get_or_create_queue st sid)) = tasks st"
  by (simp add: get_or_create_queue_def split: option.splits)

lemma enqueue_idle_state:
  assumes "\<not> is_session_busy st sid"
  shows "enqueue st sid m =
     (False,
      modify_queue
        (snd (create_task
           (modify_queue (fst (get_or_create_queue st sid)) sid (\<lambda>q. q\<lparr>is_processing := True\<rparr>))
           sid m))
        sid (\<lambda>q. q\<lparr>current_task := Some (length (tasks st))\<rparr>))"
  using assms get_or_create_busy[of st sid] tasks_get_or_create[of st sid]
  by (simp add: enqueue_def create_task_def tasks_modify_queue case_prod_beta)

lemma enqueue_busy_state:
  assumes "is_session_busy st sid"
  shows "enqueue st sid m =
     (True, modify_queue (fst (get_or_create_queue st sid)) sid (\<lambda>q. q\<lparr>queue := queue q @ [m]\<rparr>))"
  using assms get_or_create_busy[of st sid]
  by (simp add: enqueue_def case_prod_beta)

lemma enqueue_idle:
  assumes "\<not> is_session_busy st sid"
  shows "fst (enqueue st sid m) = False"
    and "is_session_busy (snd (enqueue st sid m)) sid"
    and "tasks (snd (enqueue st sid m)) =
           tasks st @ [\<lparr>t_session = sid, t_message = m, t_phase = Created, t_cancel = False\<rparr>]"
    and "queued_messages (snd (enqueue st sid m)) sid = queued_messages st sid"
  using get_or_create_queue_of[of st sid]
  by (simp_all add: enqueue_idle_state[OF assms] is_session_busy_def queued_messages_def
      map_of_modify_queue tasks_modify_queue create_task_simps map_of_get_or_create
      tasks_get_or_create)

lemma enqueue_busy:
  assumes "is_session_busy st sid"
  shows "fst (enqueue st sid m) = True"
    and "is_session_busy (snd (enqueue st sid m)) sid"
    and "tasks (snd (enqueue st sid m)) = tasks st"
    and "queued_messages (snd (enqueue st sid m)) sid = queued_messages st sid @ [m]"
  using get_or_create_queue_of[of st sid] get_or_create_busy[of st sid] assms
  by (simp_all add: enqueue_busy_state[OF assms] is_session_busy_def queued_messages_def
      map_of_modify_queue tasks_modify_queue map_of_get_or_create tasks_get_or_create)

lemma process_next_fifo:
  assumes "queued_messages st sid = m # ms"
  shows "tasks (process_next st sid) =
           tasks st @ [\<lparr>t_session = sid, t_message = m, t_phase = Created, t_cancel = False\<rparr>]"
    and "queued_messages (process_next st sid) sid = ms"
    and "is_session_busy (process_next st sid) sid = is_session_busy st sid"
proof -
  from assms obtain sq where sq: "map_of (queues st) sid = Some sq" "queue sq = m # ms"
    by (auto simp: queued_messages_def split: option.splits)
  have p: "process_next st sid =
      modify_queue (snd (create_task (modify_queue st sid (\<lambda>q. q\<lparr>queue := ms\<rparr>)) sid m)) sid
        (\<lambda>q. q\<lparr>current_task := Some (length (tasks st))\<rparr>)"
    using sq by (simp add: process_next_def create_task_def tasks_modify_queue)
  show "tasks (process_next st sid) =
           tasks st @ [\<lparr>t_session = sid, t_message = m, t_phase = Created, t_cancel = False\<rparr>]"
    by (simp add: p tasks_modify_queue create_task_simps)
  show "queued_messages (process_next st sid) sid = ms"
    using sq by (simp add: p queued_messages_def map_of_modify_queue create_task_simps)
  show "is_session_busy (process_next st sid) sid = is_session_busy st sid"
    using sq by (simp add: p is_session_busy_def map_of_modify_queue create_task_simps)
qed

lemma process_next_drained:
  assumes "queued_messages st sid = []"
  shows "tasks (process_next st sid) = tasks st"
    and "\<not> is_session_busy (process_next st sid) sid"
  using assms
  by (auto simp: process_next_def queued_messages_def tasks_modify_queue
      is_session_busy_def map_of_modify_queue split: option.splits list.splits)

lemma set_in_flight: "set (in_flight st sid) = live st sid"
  by (auto simp: in_flight_def live_def)

lemma distinct_in_flight: "distinct (in_flight st sid)"
  by (simp add: in_flight_def)

lemma owned_single_flight:
  assumes "owned st"
  shows "single_flight st sid"
proof -
  from assms have b: "is_session_busy st sid \<longleftrightarrow> live st sid \<noteq> {}"
    and u: "\<forall>a \<in> live st sid. \<forall>b \<in> live st sid. a = b"
    by (auto simp: owned_def)
  have "length (in_flight st sid) \<le> 1"
  proof (cases "in_flight st sid")
    case Nil
    then show ?thesis by simp
  next
    case (Cons a as)
    show ?thesis
    proof (cases as)
      case Nil
      with Cons show ?thesis by simp
    next
      case (Cons b bs)
      with \<open>in_flight st sid = a # as\<close> have "a \<in> live st sid" "b \<in> live st sid" "a \<noteq> b"
        using set_in_flight[of st sid] distinct_in_flight[of st sid] by auto
      with u show ?thesis by blast
    qed
  qed
  moreover have "in_flight st sid \<noteq> [] \<longleftrightarrow> live st sid \<noteq> {}"
    using set_in_flight[of st sid] by (metis set_empty)
  ultimately show ?thesis using b by (simp add: single_flight_def)
qed

lemma live_same_tasks: "tasks st' = tasks st \<Longrightarrow> live st' k = live st k"
  by (simp add: live_def)

lemma live_new_task:
  assumes "tasks st' = tasks st @ [\<lparr>t_session = sid, t_message = m, t_phase = Created, t_cancel = False\<rparr>]"
  shows "live st' k = live st k \<union> (if k = sid then {length (tasks st)} else {})"
  using assms by (auto simp: live_def nth_append less_Suc_eq)

lemma live_set_running:
  assumes "t < length (tasks st)" "t_phase (tasks st ! t) \<noteq> Done"
  shows "live (set_task st t (\<lambda>k. k\<lparr>t_phase := Running\<rparr>)) k = live st k"
  using assms by (auto simp: live_def set_task_def nth_list_update)

lemma live_set_done:
  "live (set_task st t (\<lambda>k. k\<lparr>t_phase := Done\<rparr>)) k = live st k - {t}"
proof (cases "t < length (tasks st)")
  case True
  then show ?thesis by (auto simp: live_def set_task_def nth_list_update)
next
  case False
  then have "(tasks st)[t := (tasks st ! t)\<lparr>t_phase := Done\<rparr>] = tasks st"
    by (intro list_update_beyond) simp
  with False show ?thesis by (auto simp: live_def set_task_def)
qed

lemma busy_modify_queue:
  "is_session_busy (modify_queue st sid f) k =
     (if k = sid then (case map_of (queues st) sid of None \<Rightarrow> False | Some sq \<Rightarrow> is_processing (f sq))
      else is_session_busy st k)"
  by (simp add: is_session_busy_def map_of_modify_queue split: option.splits)

lemma busy_same_queues: "queues st' = queues st \<Longrightarrow> is_session_busy st' k = is_session_busy st k"
  by (simp add: is_session_busy_def)

lemma busy_get_or_create:
  "is_session_busy (fst (get_or_create_queue st sid)) k = is_session_busy st k"
  by (auto simp: is_session_busy_def get_or_create_queue_def SessionQueue_def map_add_def
      split: option.splits)

lemma uncancelled_nth: "uncancelled st \<Longrightarrow> t < length (tasks st) \<Longrightarrow> \<not> t_cancel (tasks st ! t)"
  by (simp add: uncancelled_def list_all_length)

lemma uncancelled_same_tasks: "tasks st' = tasks st \<Longrightarrow> uncancelled st' = uncancelled st"
  by (simp add: uncancelled_def)

lemma uncancelled_new_task:
  assumes "tasks st' = tasks st @ [\<lparr>t_session = sid, t_message = m, t_phase = Created, t_cancel = False\<rparr>]"
  shows "uncancelled st' = uncancelled st"
  using assms by (simp add: uncancelled_def)

lemma uncancelled_set_phase:
  assumes "uncancelled st"
  shows "uncancelled (set_task st t (\<lambda>k. k\<lparr>t_phase := ph\<rparr>))"
proof (cases "t < length (tasks st)")
  case True
  with assms show ?thesis
    by (auto simp: uncancelled_def set_task_def list_all_length nth_list_update)
next
  case False
  then have "(tasks st)[t := (tasks st ! t)\<lparr>t_phase := ph\<rparr>] = tasks st"
    by (intro list_update_beyond) simp
  with assms show ?thesis by (simp add: uncancelled_def set_task_def)
qed

lemma enqueue_keeps_owned:
  assumes "owned st"
  shows "owned (snd (enqueue st sid m))"
proof (cases "is_session_busy st sid")
  case True
  let ?st' = "snd (enqueue st sid m)"
  have t: "tasks ?st' = tasks st" using enqueue_busy(3)[OF True] .
  have b: "is_session_busy ?st' k = is_session_busy st k" for k
    using True get_or_create_busy[of st sid]
    by (simp add: enqueue_busy_state[OF True] busy_modify_queue busy_get_or_create
        map_of_get_or_create)
  show ?thesis using assms unfolding owned_def by (simp add: b live_same_tasks[OF t])
next
  case False
  let ?st' = "snd (enqueue st sid m)"
  have t: "tasks ?st' =
      tasks st @ [\<lparr>t_session = sid, t_message = m, t_phase = Created, t_cancel = False\<rparr>]"
    using enqueue_idle(3)[OF False] .
  have b: "is_session_busy ?st' k = (k = sid \<or> is_session_busy st k)" for k
    by (simp add: enqueue_idle_state[OF False] busy_modify_queue create_task_simps
        map_of_modify_queue map_of_get_or_create busy_same_queues[OF create_task_simps(2)]
        busy_get_or_create)
  have l: "live ?st' k = live st k \<union> (if k = sid then {length (tasks st)} else {})" for k
    by (rule live_new_task[OF t])
  from assms False have e: "live st sid = {}" by (simp add: owned_def)
  show ?thesis
    unfolding owned_def
  proof (intro allI conjI)
    fix k
    show "is_session_busy ?st' k \<longleftrightarrow> live ?st' k \<noteq> {}"
      using assms e by (auto simp: b l owned_def)
    show "\<forall>a \<in> live ?st' k. \<forall>b \<in> live ?st' k. a = b"
      using assms e by (cases "k = sid") (auto simp: l owned_def)
  qed
qed

lemma busy_modify_keeps:
  assumes "\<And>q. is_processing (f q) = is_processing q"
  shows "is_session_busy (modify_queue st sid f) k = is_session_busy st k"
proof (cases "k = sid")
  case True
  then show ?thesis
    by (cases "map_of (queues st) sid")
       (simp_all add: is_session_busy_def map_of_modify_queue assms)
next
  case False
  then show ?thesis by (simp add: is_session_busy_def map_of_modify_queue)
qed

lemma map_of_process_next_other:
  assumes "k \<noteq> sid"
  shows "map_of (queues (process_next st sid)) k = map_of (queues st) k"
proof (cases "map_of (queues st) sid")
  case None
  then show ?thesis by (simp add: process_next_def)
next
  case (Some sq)
  then show ?thesis
  proof (cases "queue sq")
    case Nil
    with Some assms show ?thesis by (simp add: process_next_def map_of_modify_queue)
  next
    case (Cons m ms)
    have "process_next st sid =
      modify_queue (snd (create_task (modify_queue st sid (\<lambda>q. q\<lparr>queue := ms\<rparr>)) sid m)) sid
        (\<lambda>q. q\<lparr>current_task := Some (length (tasks st))\<rparr>)"
      using Some Cons by (simp add: process_next_def create_task_def tasks_modify_queue)
    then show ?thesis using assms by (simp add: map_of_modify_queue create_task_simps)
  qed
qed

lemma enqueue_keeps_uncancelled:
  "uncancelled st \<Longrightarrow> uncancelled (snd (enqueue st sid m))"
proof (cases "is_session_busy st sid")
  case True
  assume "uncancelled st"
  then show ?thesis using uncancelled_same_tasks[OF enqueue_busy(3)[OF True, of m]] by simp
next
  case False
  assume "uncancelled st"
  then show ?thesis using uncancelled_new_task[OF enqueue_idle(3)[OF False, of m]] by simp
qed

lemma start_keeps_owned:
  assumes "owned st" "uncancelled st" "start_task st t = Some st'"
  shows "owned st' \<and> uncancelled st'"
proof -
  from assms(3) have t: "t < length (tasks st)" "t_phase (tasks st ! t) = Created"
    by (auto simp: start_task_def split: if_splits)
  with assms(2) have nc: "\<not> t_cancel (tasks st ! t)" by (simp add: uncancelled_nth)
  let ?s1 = "set_task st t (\<lambda>k. k\<lparr>t_phase := Running\<rparr>)"
  have st': "st' = modify_queue ?s1 (t_session (tasks st ! t))
                     (\<lambda>q. q\<lparr>current_message := Some (t_message (tasks st ! t))\<rparr>)"
    using assms(3) t nc by (simp add: start_task_def Let_def)
  have l: "live st' k = live st k" for k
    using live_set_running[of t st k] t
    by (simp add: st' live_same_tasks[OF tasks_modify_queue])
  have b: "is_session_busy st' k = is_session_busy st k" for k
    by (simp add: st' busy_modify_keeps busy_same_queues[OF queues_set_task])
  have u: "uncancelled st'"
    using uncancelled_set_phase[OF assms(2), of t Running]
    by (simp add: st' uncancelled_same_tasks[OF tasks_modify_queue])
  from assms(1) u show ?thesis by (simp add: owned_def l b)
qed

lemma finish_keeps_owned:
  assumes "owned st" "uncancelled st" "finish_task st t = Some st'"
  shows "owned st' \<and> uncancelled st'"
proof -
  from assms(3) have t: "t < length (tasks st)" "t_phase (tasks st ! t) = Running"
    by (auto simp: finish_task_def split: if_splits)
  let ?sid = "t_session (tasks st ! t)"
  let ?s1 = "modify_queue st ?sid (\<lambda>q. q\<lparr>current_message := None\<rparr>)"
  let ?s2 = "process_next ?s1 ?sid"
  have st': "st' = set_task ?s2 t (\<lambda>k. k\<lparr>t_phase := Done\<rparr>)"
    using assms(3) t by (simp add: finish_task_def Let_def)
  have t_live: "t \<in> live st ?sid" using t by (simp add: live_def)
  with assms(1) have only: "live st ?sid = {t}" and busy: "is_session_busy st ?sid"
    by (auto simp: owned_def)
  have b1: "is_session_busy ?s1 k = is_session_busy st k" for k
    by (simp add: busy_modify_keeps)
  have t1: "tasks ?s1 = tasks st" by (rule tasks_modify_queue)
  have q1: "queued_messages ?s1 ?sid = queued_messages st ?sid"
    by (simp add: queued_messages_def map_of_modify_queue split: option.splits)
  have bo: "is_session_busy ?s2 k = is_session_busy ?s1 k" if "k \<noteq> ?sid" for k
    using map_of_process_next_other[OF that, of ?s1] by (simp add: is_session_busy_def)
  show ?thesis
  proof (cases "queued_messages st ?sid")
    case Nil
    then have q: "queued_messages ?s1 ?sid = []" using q1 by simp
    have t2: "tasks ?s2 = tasks st" using process_next_drained(1)[OF q] t1 by simp
    have b2: "\<not> is_session_busy ?s2 ?sid" using process_next_drained(2)[OF q] .
    have l: "live st' k = live st k - {t}" for k
      by (simp add: st' live_set_done live_same_tasks[OF t2])
    have lo: "live st k - {t} = live st k" if "k \<noteq> ?sid" for k
      using that by (auto simp: live_def)
    have b: "is_session_busy st' k = is_session_busy ?s2 k" for k
      by (simp add: st' busy_same_queues[OF queues_set_task])
    have u: "uncancelled st'"
      using uncancelled_set_phase[of ?s2 t Done] assms(2) uncancelled_same_tasks[OF t2]
      by (simp add: st')
    have "owned st'"
      unfolding owned_def
    proof (intro allI conjI)
      fix k
      show "is_session_busy st' k \<longleftrightarrow> live st' k \<noteq> {}"
      proof (cases "k = ?sid")
        case True
        then show ?thesis using b2 only by (simp add: b l)
      next
        case False
        then show ?thesis using assms(1) by (simp add: b bo b1 l lo owned_def)
      qed
      show "\<forall>a \<in> live st' k. \<forall>b \<in> live st' k. a = b"
        using assms(1) by (auto simp: l owned_def)
    qed
    with u show ?thesis by simp
  next
    case (Cons m ms)
    then have q: "queued_messages ?s1 ?sid = m # ms" using q1 by simp
    have t2: "tasks ?s2 =
        tasks st @ [\<lparr>t_session = ?sid, t_message = m, t_phase = Created, t_cancel = False\<rparr>]"
      using process_next_fifo(1)[OF q] t1 by simp
    have b2: "is_session_busy ?s2 ?sid" using process_next_fifo(3)[OF q] busy b1 by simp
    have l2: "live ?s2 k = live st k \<union> (if k = ?sid then {length (tasks st)} else {})" for k
      by (rule live_new_task[OF t2])
    have l: "live st' k = live ?s2 k - {t}" for k
      by (simp add: st' live_set_done)
    have lo: "live st k - {t} = live st k" if "k \<noteq> ?sid" for k
      using that by (auto simp: live_def)
    have b: "is_session_busy st' k = is_session_busy ?s2 k" for k
      by (simp add: st' busy_same_queues[OF queues_set_task])
    have u: "uncancelled st'"
      using uncancelled_set_phase[of ?s2 t Done] assms(2) uncancelled_new_task[OF t2]
      by (simp add: st')
    have ls: "live st' ?sid = {length (tasks st)}"
      using only t(1) by (auto simp: l l2)
    have "owned st'"
      unfolding owned_def
    proof (intro allI conjI)
      fix k
      show "is_session_busy st' k \<longleftrightarrow> live st' k \<noteq> {}"
      proof (cases "k = ?sid")
        case True
        then show ?thesis using b2 ls by (simp add: b)
      next
        case False
        then show ?thesis using assms(1) by (simp add: b bo b1 l l2 lo owned_def)
      qed
      show "\<forall>a \<in> live st' k. \<forall>b \<in> live st' k. a = b"
      proof (cases "k = ?sid")
        case True
        then show ?thesis using ls by simp
      next
        case False
        then show ?thesis using assms(1) by (auto simp: l l2 owned_def)
      qed
    qed
    with u show ?thesis by simp
  qed
qed

lemma owned_initial: "owned MessageQueueManager \<and> uncancelled MessageQueueManager"
  by (simp add: owned_def uncancelled_def MessageQueueManager_def is_session_busy_def live_def)

lemma run_keeps_owned:
  assumes "owned st \<and> uncancelled st" "run st es = Some st'" "\<forall>e \<in> set es. \<not> is_cancel e"
  shows "owned st' \<and> uncancelled st'"
  using assms
proof (induction es arbitrary: st)
  case Nil
  then show ?case by simp
next
  case (Cons e es)
  from Cons.prems(2) obtain st1 where s: "step st e = Some st1" "run st1 es = Some st'"
    by (auto split: option.splits)
  have "owned st1 \<and> uncancelled st1"
  proof (cases e)
    case (Enqueue sid m)
    with s(1) Cons.prems(1) show ?thesis
      using enqueue_keeps_owned[of st sid m] enqueue_keeps_uncancelled[of st sid m] by auto
  next
    case (Start t)
    with s(1) Cons.prems(1) show ?thesis using start_keeps_owned[of st t st1] by simp
  next
    case (Finish t)
    with s(1) Cons.prems(1) show ?thesis using finish_keeps_owned[of st t st1] by simp
  next
    case (CancelSession sid)
    with Cons.prems(3) show ?thesis by simp
  next
    case CancelAll
    with Cons.prems(3) show ?thesis by simp
  qed
  then show ?case using Cons.IH[of st1] s(2) Cons.prems(3) by simp
qed

text \<open>
  Without cancellation the manager keeps its invariant: in every state reached from a new
  manager by \<open>enqueue\<close> calls and turns of tasks, each conversation is marked busy
  exactly when a processing task owns it, and at most one does.
\<close>

lemma single_flight_without_cancel:
  assumes "run MessageQueueManager es = Some st" "\<forall>e \<in> set es. \<not> is_cancel e"
  shows "single_flight st sid"
  using run_keeps_owned[OF owned_initial assms] owned_single_flight by blast

text \<open>
  The keys of \<open>_queues\<close> stay distinct in every state the manager can reach, so the
  association list is a dict.
\<close>

lemma keys_get_or_create:
  "distinct (map fst (queues st)) \<Longrightarrow> distinct (map fst (queues (fst (get_or_create_queue st sid))))"
  by (auto simp: get_or_create_queue_def map_of_eq_None_iff split: option.splits)

lemma keys_process_next:
  "map fst (queues (process_next st sid)) = map fst (queues st)"
proof (cases "map_of (queues st) sid")
  case None
  then show ?thesis by (simp add: process_next_def)
next
  case (Some sq)
  show ?thesis
  proof (cases "queue sq")
    case Nil
    with Some show ?thesis by (simp add: process_next_def keys_modify_queue)
  next
    case (Cons m ms)
    have "process_next st sid =
      modify_queue (snd (create_task (modify_queue st sid (\<lambda>q. q\<lparr>queue := ms\<rparr>)) sid m)) sid
        (\<lambda>q. q\<lparr>current_task := Some (length (tasks st))\<rparr>)"
      using Some Cons by (simp add: process_next_def create_task_def tasks_modify_queue)
    then show ?thesis by (simp add: keys_modify_queue create_task_simps)
  qed
qed

lemma keys_enqueue:
  "distinct (map fst (queues st)) \<Longrightarrow> distinct (map fst (queues (snd (enqueue st sid m))))"
  using keys_get_or_create[of st sid]
  by (cases "is_session_busy st sid")
     (simp_all add: enqueue_busy_state enqueue_idle_state keys_modify_queue create_task_simps)

lemma keys_cancel_sessions:
  "map fst (queues (snd (cancel_sessions sids st))) = map fst (queues st)"
proof (induction sids arbitrary: st)
  case Nil
  then show ?case by simp
next
  case (Cons sid sids)
  show ?case
    using Cons.IH[of "snd (cancel_session st sid)"] cancel_session_keys[of st sid]
    by (simp add: case_prod_beta)
qed

lemma keys_step:
  assumes "step st e = Some st'" "distinct (map fst (queues st))"
  shows "distinct (map fst (queues st'))"
proof (cases e)
  case (Enqueue sid m)
  with assms show ?thesis using keys_enqueue[of st sid m] by auto
next
  case (Start t)
  with assms show ?thesis
    by (auto simp: start_task_def Let_def keys_modify_queue queues_set_task split: if_splits)
next
  case (Finish t)
  with assms show ?thesis
    by (auto simp: finish_task_def Let_def keys_modify_queue queues_set_task keys_process_next
        split: if_splits)
next
  case (CancelSession sid)
  with assms show ?thesis using cancel_session_keys[of st sid] by auto
next
  case CancelAll
  with assms show ?thesis using keys_cancel_sessions[of "map fst (queues st)" st]
    by (auto simp: cancel_all_def)
qed

lemma keys_distinct_reachable:
  assumes "run MessageQueueManager es = Some st"
  shows "distinct (map fst (queues st))"
proof -
  have "run st0 es = Some st \<Longrightarrow> distinct (map fst (queues st0)) \<Longrightarrow> distinct (map fst (queues st))"
    for st0 :: "'a manager"
  proof (induction es arbitrary: st0)
    case Nil
    then show ?case by simp
  next
    case (Cons e es)
    from Cons.prems(1) obtain st1 where s: "step st0 e = Some st1" "run st1 es = Some st"
      by (auto split: option.splits)
    show ?case by (rule Cons.IH[OF s(2) keys_step[OF s(1) Cons.prems(2)]])
  qed
  from this[OF assms] show ?thesis by (simp add: MessageQueueManager_def)
qed

text \<open>
  Claim C1 states that a conversation is marked busy exactly when a processing task owns
  it and that two tasks never own one conversation at once, under every interleaving
  with cancellation. The code breaks both on the cancel path: \<open>cancel_session\<close> clears
  \<open>is_processing\<close> at once, while the cancelled task still has to run the \<open>finally\<close>
  block of \<open>_process_message\<close>. After \<open>enqueue\<close> of message 1, the start of its task,
  \<open>cancel_session\<close>, \<open>enqueue\<close> of message 2 (which starts task 1, the flag being
  clear), the end of the cancelled task 0 (whose \<open>_process_next\<close> clears the flag again)
  and the start of task 1, the conversation is not marked busy although task 1 owns it;
  a further \<open>enqueue\<close> therefore starts task 2 beside it, and two tasks that nobody
  cancelled run for the same conversation.
\<close>

theorem cancel_race_breaks_single_flight:
  "map_option (\<lambda>st. (is_session_busy st ''s'', in_flight st ''s''))
     (run (MessageQueueManager :: nat manager)
        [Enqueue ''s'' 1, Start 0, CancelSession ''s'', Enqueue ''s'' 2, Finish 0, Start 1])
     = Some (False, [1]) \<and>
   map_option (\<lambda>st. (in_flight st ''s'', map t_phase (tasks st), map t_cancel (tasks st)))
     (run (MessageQueueManager :: nat manager)
        [Enqueue ''s'' 1, Start 0, CancelSession ''s'', Enqueue ''s'' 2, Finish 0, Start 1,
         Enqueue ''s'' 3, Start 2])
     = Some ([1, 2], [Done, Running, Running], [True, False, False])"
  by code_simp

text \<open>
  Claim C2 states that a message enqueued while the conversation is busy is processed
  only after the current one has finished. On the same cancel path this fails: with
  task 1 (message 2) running as the current task and the cancelled task 0 not yet ended,
  \<open>enqueue\<close> of message 3 returns \<open>True\<close> (queued); the end of task 0 then pops
  message 3 in its \<open>_process_next\<close> and starts it, while message 2 is still being
  processed.
\<close>

theorem cancel_race_starts_queued_message_early:
  "map_option (\<lambda>st. (fst (enqueue st ''s'' 3), map t_message (tasks st), map t_phase (tasks st)))
     (run (MessageQueueManager :: nat manager)
        [Enqueue ''s'' 1, Start 0, CancelSession ''s'', Enqueue ''s'' 2, Start 1])
     = Some (True, [1, 2], [Running, Running]) \<and>
   map_option (\<lambda>st. (map t_message (tasks st), map t_phase (tasks st)))
     (run (MessageQueueManager :: nat manager)
        [Enqueue ''s'' 1, Start 0, CancelSession ''s'', Enqueue ''s'' 2, Start 1,
         Enqueue ''s'' 3, Finish 0, Start 2])
     = Some ([1, 2, 3], [Done, Running, Running])"
  by code_simp


section \<open>Properties of the rate limiter\<close>


lemma worker_take_flood:
  assumes "in_hand st = None" "task_queue st = (func, future) # rest"
    and "c_outcome (env (calls st)) = Raise e" "is_flood e"
  shows "worker_take env st =
     Some (st\<lparr>task_queue := rest, calls := Suc (calls st), clock := call_ended env st,
               dispatched := dispatched st @
                 [(func, call_ended env st - int (c_took (env (calls st))))],
               paused_until := call_ended env st + flood_seconds e,
               in_hand := Some ((func, future), flood_seconds e)\<rparr>)"
  using assms by (simp add: worker_take_def call_ended_def Let_def max_def)

lemma worker_take_error:
  assumes "in_hand st = None" "task_queue st = (func, future) # rest"
    and "c_outcome (env (calls st)) = Raise e" "\<not> is_flood e"
  shows "worker_take env st =
     Some (st\<lparr>task_queue := rest, calls := Suc (calls st), clock := call_ended env st,
               dispatched := dispatched st @
                 [(func, call_ended env st - int (c_took (env (calls st))))],
               futures := settle (futures st) future (Exception e)\<rparr>)"
  using assms by (simp add: worker_take_def call_ended_def Let_def max_def)

lemma worker_take_return:
  assumes "in_hand st = None" "task_queue st = (func, future) # rest"
    and "c_outcome (env (calls st)) = Return v"
  shows "worker_take env st =
     Some (st\<lparr>task_queue := rest, calls := Suc (calls st), clock := call_ended env st,
               dispatched := dispatched st @
                 [(func, call_ended env st - int (c_took (env (calls st))))],
               futures := settle (futures st) future (Result v)\<rparr>)"
  using assms by (simp add: worker_take_def call_ended_def Let_def max_def)



lemma submit_all_fields:
  "in_hand (submit_all st funcs) = in_hand st"
  "paused_until (submit_all st funcs) = paused_until st"
  "clock (submit_all st funcs) = clock st"
  "calls (submit_all st funcs) = calls st"
  "dispatched (submit_all st funcs) = dispatched st"
  by (induction funcs arbitrary: st) (simp_all add: submit_all_def limiter_enqueue_def Let_def)

lemma submit_all_queue:
  "\<exists>futs. length futs = length funcs \<and>
          task_queue (submit_all st funcs) = task_queue st @ zip funcs futs"
proof (induction funcs arbitrary: st)
  case Nil
  then show ?case by (simp add: submit_all_def)
next
  case (Cons f fs)
  have s: "submit_all st (f # fs) = submit_all (snd (limiter_enqueue st f)) fs"
    by (simp add: submit_all_def)
  from Cons.IH[of "snd (limiter_enqueue st f)"] obtain futs where
    f: "length futs = length fs"
       "task_queue (submit_all (snd (limiter_enqueue st f)) fs) =
          task_queue (snd (limiter_enqueue st f)) @ zip fs futs"
    by blast
  have "task_queue (submit_all st (f # fs)) =
          task_queue st @ zip (f # fs) (length (futures st) # futs)"
    unfolding s f(2) by (simp add: limiter_enqueue_def Let_def)
  with f(1) show ?case by (intro exI[of _ "length (futures st) # futs"]) simp
qed




text \<open>
  A flood error never reaches a caller: no step of the worker settles a future with one.
\<close>

lemma flood_never_surfaces:
  assumes "worker_take env st = Some st'"
    and "\<forall>e. Exception e \<in> set (futures st) \<longrightarrow> \<not> is_flood e"
  shows "\<forall>e. Exception e \<in> set (futures st') \<longrightarrow> \<not> is_flood e"
proof -
  have s: "set (settle fs future v) \<subseteq> insert v (set fs)" for fs :: "'b future list" and future v
    using set_update_subset_insert[of fs future v] by (auto simp: settle_def)
  from assms(1) have idle: "in_hand st = None"
    by (cases "in_hand st") (simp_all add: worker_take_def)
  from assms(1) idle obtain func future rest where q: "task_queue st = (func, future) # rest"
    by (cases "task_queue st") (auto simp: worker_take_def)
  show ?thesis
  proof (cases "c_outcome (env (calls st))")
    case (Return v)
    note t = worker_take_return[where env = env, OF idle q Return]
    from t assms(1) have "futures st' = settle (futures st) future (Result v)" by auto
    then show ?thesis using assms(2) s[of "futures st" future "Result v"] by auto
  next
    case (Raise e)
    show ?thesis
    proof (cases "is_flood e")
      case True
      note t = worker_take_flood[where env = env, OF idle q Raise True]
      from t assms(1) have "futures st' = futures st" by auto
      then show ?thesis using assms(2) by simp
    next
      case False
      note t = worker_take_error[where env = env, OF idle q Raise False]
      from t assms(1) have "futures st' = settle (futures st) future (Exception e)" by auto
      then show ?thesis using assms(2) False s[of "futures st" future "Exception e"] by auto
    qed
  qed
qed




text \<open>The text test is case-insensitive, and the hint defaults to 30.\<close>

lemma flood_text_examples:
  "is_flood \<lparr>e_text = ''A wait of 3 seconds is required'', e_seconds = None\<rparr>"
  "\<not> is_flood \<lparr>e_text = ''Message is not modified'', e_seconds = None\<rparr>"
  "flood_seconds \<lparr>e_text = ''FLOOD'', e_seconds = None\<rparr> = 30"
  by code_simp+



section \<open>Properties of the tag-segment extractor\<close>

lemma starts_with_iff: "starts_with s p \<longleftrightarrow> (\<exists>r. s = p @ r)"
  by (induction s p rule: starts_with.induct) auto

lemma starts_with_append: "starts_with s p \<Longrightarrow> starts_with (s @ ys) p"
  by (auto simp: starts_with_iff)

lemma starts_with_length: "starts_with s p \<Longrightarrow> length p \<le> length s"
  by (auto simp: starts_with_iff)

lemma starts_with_of_append:
  "starts_with (s @ ys) p \<Longrightarrow> starts_with s p \<or> starts_with p s"
  by (auto simp: starts_with_iff append_eq_append_conv2)

lemma starts_with_longer: "starts_with p (s @ ys) \<Longrightarrow> starts_with p s"
  by (auto simp: starts_with_iff)

lemma typed_chars_append: "typed_chars (a @ b) = typed_chars a @ typed_chars b"
  by (simp add: typed_chars_def)

lemma typed_chars_emit:
  "typed_chars (emit inside acc) = map (Pair (if inside then THINKING else TEXT)) acc"
  by (simp add: typed_chars_def emit_def)

lemma scan_acc:
  "snd (scan inside acc s) = snd (scan inside [] s) \<and>
   typed_chars (fst (scan inside acc s)) =
     map (Pair (if inside then THINKING else TEXT)) acc @ typed_chars (fst (scan inside [] s))"
proof (induction s arbitrary: acc)
  case Nil
  then show ?case by (simp add: typed_chars_emit)
next
  case (Cons c cs)
  show ?case
  proof (cases "starts_with (c # cs) (expected_tag inside)")
    case True
    then show ?thesis
      by (simp add: case_prod_beta typed_chars_append typed_chars_emit)
  next
    case nt: False
    show ?thesis
    proof (cases "starts_with (expected_tag inside) (c # cs)")
      case True
      with nt show ?thesis by (simp add: typed_chars_emit)
    next
      case False
      with nt Cons.IH[of "acc @ [c]"] Cons.IH[of "[c]"] show ?thesis by simp
    qed
  qed
qed

lemma scan_append:
  "snd (scan inside acc (s @ ys)) =
     snd (scan (fst (snd (scan inside acc s))) [] (snd (snd (scan inside acc s)) @ ys)) \<and>
   typed_chars (fst (scan inside acc (s @ ys))) =
     typed_chars (fst (scan inside acc s)) @
     typed_chars (fst (scan (fst (snd (scan inside acc s))) [] (snd (snd (scan inside acc s)) @ ys)))"
proof (induction inside acc s rule: scan.induct)
  case (1 inside acc)
  then show ?case using scan_acc[of inside acc ys] by (simp add: typed_chars_emit)
next
  case (2 inside acc c cs)
  let ?tag = "expected_tag inside"
  show ?case
  proof (cases "starts_with (c # cs) ?tag")
    case True
    then have a: "starts_with ((c # cs) @ ys) ?tag" by (rule starts_with_append)
    have d: "drop (length ?tag) ((c # cs) @ ys) = drop (length ?tag) (c # cs) @ ys"
      using starts_with_length[OF True] by (simp only: drop_append) simp
    have l: "scan inside acc ((c # cs) @ ys) =
        (emit inside acc @ fst (scan (\<not> inside) [] (drop (length ?tag) (c # cs) @ ys)),
         snd (scan (\<not> inside) [] (drop (length ?tag) (c # cs) @ ys)))"
      using a d by (simp add: case_prod_beta)
    have r: "scan inside acc (c # cs) =
        (emit inside acc @ fst (scan (\<not> inside) [] (drop (length ?tag) (c # cs))),
         snd (scan (\<not> inside) [] (drop (length ?tag) (c # cs))))"
      using True by (simp add: case_prod_beta)
    show ?thesis
      unfolding l r using "2.IH"(1)[OF True] by (simp add: typed_chars_append)
  next
    case nt: False
    show ?thesis
    proof (cases "starts_with ?tag (c # cs)")
      case True
      with nt have r: "scan inside acc (c # cs) = (emit inside acc, inside, c # cs)" by simp
      show ?thesis
        unfolding r using scan_acc[of inside acc "(c # cs) @ ys"]
        by (simp add: typed_chars_emit)
    next
      case False
      have a: "\<not> starts_with ((c # cs) @ ys) ?tag"
        using starts_with_of_append[of "c # cs" ys ?tag] nt False by blast
      have b: "\<not> starts_with ?tag ((c # cs) @ ys)"
        using starts_with_longer[of ?tag "c # cs" ys] False by blast
      have l: "scan inside acc ((c # cs) @ ys) = scan inside (acc @ [c]) (cs @ ys)"
        using a b by simp
      have r: "scan inside acc (c # cs) = scan inside (acc @ [c]) cs"
        using nt False by simp
      show ?thesis unfolding l r using "2.IH"(2)[OF nt False] .
    qed
  qed
qed

lemma feed_append:
  "snd (feed p (xs @ ys)) = snd (feed (snd (feed p xs)) ys) \<and>
   typed_chars (fst (feed p (xs @ ys))) =
     typed_chars (fst (feed p xs)) @ typed_chars (fst (feed (snd (feed p xs)) ys))"
  using scan_append[of "in_think p" "[]" "buffer p @ xs" ys]
  by (simp add: feed_def case_prod_beta)

lemma feeds_nonempty:
  "snd (feeds p (t # ts)) = snd (feed p (concat (t # ts))) \<and>
   typed_chars (fst (feeds p (t # ts))) = typed_chars (fst (feed p (concat (t # ts))))"
proof (induction ts arbitrary: p t)
  case Nil
  then show ?case by (simp add: case_prod_beta)
next
  case (Cons u us)
  have "feeds p (t # u # us) =
      (fst (feed p t) @ fst (feeds (snd (feed p t)) (u # us)), snd (feeds (snd (feed p t)) (u # us)))"
    by (simp add: case_prod_beta)
  then show ?case
    using Cons.IH[of "snd (feed p t)" u] feed_append[of p t "concat (u # us)"]
    by (simp add: typed_chars_append)
qed

lemma scan_no_bracket:
  assumes "CHR ''<'' \<notin> set body"
  shows "scan inside acc (body @ rest) = scan inside (acc @ body) rest"
  using assms
proof (induction body arbitrary: acc)
  case Nil
  then show ?case by simp
next
  case (Cons c cs)
  then have "c \<noteq> CHR ''<''" by auto
  then have "\<not> starts_with (c # cs @ rest) (expected_tag inside)"
    "\<not> starts_with (expected_tag inside) (c # cs @ rest)"
    by (auto simp: expected_tag_def)
  then show ?case using Cons by simp
qed

lemma scan_held:
  assumes "pre \<noteq> []" "starts_with (expected_tag inside) pre" "pre \<noteq> expected_tag inside"
  shows "scan inside acc pre = (emit inside acc, inside, pre)"
proof -
  from assms(1) obtain c cs where p: "pre = c # cs" by (cases pre) auto
  have "\<not> starts_with pre (expected_tag inside)"
  proof
    assume "starts_with pre (expected_tag inside)"
    with assms(2) have "pre = expected_tag inside"
      by (auto simp: starts_with_iff)
    with assms(3) show False by simp
  qed
  then show ?thesis using assms(2) unfolding p by simp
qed

text \<open>
  Claim C9. For every way of cutting a text into consecutive feeds to a new extractor,
  the segments emitted carry the same characters with the same types, in the same order,
  as those of one feed of the whole text (so the concatenated contents agree and text
  turns into thinking and back at the same positions), and the extractor ends in the same
  state. The same holds from any state when a text is fed in two parts. A feed that ends
  in a proper beginning of the expected delimiter (after text without \<open><\<close>) emits only
  the text before it and keeps that beginning in the buffer, so that by the second
  statement the next feed goes on exactly as if the delimiter had never been cut.
\<close>

theorem feed_split_invariant:
  "snd (feeds ThinkTagParser texts) = snd (feed ThinkTagParser (concat texts)) \<and>
   typed_chars (fst (feeds ThinkTagParser texts)) =
     typed_chars (fst (feed ThinkTagParser (concat texts))) \<and>
   (\<forall>p xs ys.
      snd (feed p (xs @ ys)) = snd (feed (snd (feed p xs)) ys) \<and>
      typed_chars (fst (feed p (xs @ ys))) =
        typed_chars (fst (feed p xs)) @ typed_chars (fst (feed (snd (feed p xs)) ys))) \<and>
   (\<forall>p body pre.
      buffer p = [] \<and> CHR ''<'' \<notin> set body \<and> pre \<noteq> [] \<and>
      starts_with (expected_tag (in_think p)) pre \<and> pre \<noteq> expected_tag (in_think p) \<longrightarrow>
      feed p (body @ pre) = (emit (in_think p) body, p\<lparr>buffer := pre\<rparr>))"
proof (intro conjI allI impI)
  show "snd (feeds ThinkTagParser texts) = snd (feed ThinkTagParser (concat texts))"
  proof (cases texts)
    case Nil
    then show ?thesis by (simp add: feed_def ThinkTagParser_def emit_def)
  next
    case (Cons t ts)
    then show ?thesis using feeds_nonempty[of ThinkTagParser t ts] by simp
  qed
  show "typed_chars (fst (feeds ThinkTagParser texts)) =
     typed_chars (fst (feed ThinkTagParser (concat texts)))"
  proof (cases texts)
    case Nil
    then show ?thesis by (simp add: feed_def ThinkTagParser_def emit_def)
  next
    case (Cons t ts)
    then show ?thesis using feeds_nonempty[of ThinkTagParser t ts] by simp
  qed
next
  fix p xs ys
  show "snd (feed p (xs @ ys)) = snd (feed (snd (feed p xs)) ys)"
    and "typed_chars (fst (feed p (xs @ ys))) =
        typed_chars (fst (feed p xs)) @ typed_chars (fst (feed (snd (feed p xs)) ys))"
    using feed_append[of p xs ys] by simp_all
next
  fix p :: think_parser and body pre
  assume a: "buffer p = [] \<and> CHR ''<'' \<notin> set body \<and> pre \<noteq> [] \<and>
      starts_with (expected_tag (in_think p)) pre \<and> pre \<noteq> expected_tag (in_think p)"
  then have "scan (in_think p) [] (body @ pre) = (emit (in_think p) body, in_think p, pre)"
    using scan_no_bracket[of body "in_think p" "[]" pre] scan_held[of pre "in_think p" body]
    by simp
  then show "feed p (body @ pre) = (emit (in_think p) body, p\<lparr>buffer := pre\<rparr>)"
    using a by (simp add: feed_def)
qed

theorem feed_split_invariant_witness:
  "feed ThinkTagParser ''Hello <thi'' =
     ([(TEXT, ''Hello '')], \<lparr>buffer = ''<thi'', in_think = False\<rparr>) \<and>
   feed \<lparr>buffer = ''<thi'', in_think = False\<rparr> ''nk>reasoning</think>'' =
     ([(THINKING, ''reasoning'')], \<lparr>buffer = [], in_think = False\<rparr>) \<and>
   typed_chars (fst (feeds ThinkTagParser [''Hello <thi'', ''nk>reasoning</think>''])) =
     typed_chars (fst (feed ThinkTagParser ''Hello <think>reasoning</think>''))"
proof -
  have 1: "feed ThinkTagParser (''Hello '' @ ''<thi'') =
      (emit (in_think ThinkTagParser) ''Hello '', ThinkTagParser\<lparr>buffer := ''<thi''\<rparr>)"
    using feed_split_invariant[of "[]", THEN conjunct2, THEN conjunct2, THEN conjunct2,
        rule_format, of ThinkTagParser "''Hello ''" "''<thi''"]
    by (simp add: ThinkTagParser_def expected_tag_def)
  have 2: "feed \<lparr>buffer = ''<thi'', in_think = False\<rparr> ''nk>reasoning</think>'' =
     ([(THINKING, ''reasoning'')], \<lparr>buffer = [], in_think = False\<rparr>)"
    by (simp add: feed_def expected_tag_def emit_def)
  have 3: "typed_chars (fst (feeds ThinkTagParser [''Hello <thi'', ''nk>reasoning</think>''])) =
     typed_chars (fst (feed ThinkTagParser (concat [''Hello <thi'', ''nk>reasoning</think>''])))"
    using feed_split_invariant[of "[''Hello <thi'', ''nk>reasoning</think>'']"] by blast
  from 1 2 3 show ?thesis by (simp add: ThinkTagParser_def emit_def)
qed


section \<open>Order of the outbound sends\<close>

lemma submit_all_Cons:
  "submit_all st (ob # obs) = submit_all (snd (limiter_enqueue st ob)) obs"
  by (simp add: submit_all_def)

lemma perform_all_submits: "perform_all st steps = submit_all st (calls_of steps)"
proof (induction steps arbitrary: st)
  case Nil
  then show ?case by (simp add: perform_all_def calls_of_def submit_all_def List.map_filter_simps)
next
  case (Cons s steps)
  have p: "perform_all st (s # steps) = perform_all (perform st s) steps"
    by (simp add: perform_all_def)
  show ?case
  proof (cases "handler_call s")
    case None
    then show ?thesis
      unfolding p Cons.IH by (simp add: perform_def calls_of_def List.map_filter_simps)
  next
    case (Some ob)
    then show ?thesis
      unfolding p Cons.IH
      by (simp add: perform_def calls_of_def List.map_filter_simps platform_call_def
          submit_all_Cons)
  qed
qed

lemma plain_iteration:
  assumes "in_hand st = None" "task_queue st = (func, future) # rest"
    and "\<forall>e. c_outcome (env (calls st)) = Raise e \<longrightarrow> \<not> is_flood e"
  shows "\<exists>st1. worker_iteration env st = Some st1 \<and> in_hand st1 = None \<and>
           task_queue st1 = rest \<and> calls st1 = Suc (calls st) \<and>
           map fst (dispatched st1) = map fst (dispatched st) @ [func]"
proof (cases "c_outcome (env (calls st))")
  case (Return v)
  note t = worker_take_return[where env = env, OF assms(1,2) Return]
  show ?thesis using assms(1) by (simp add: worker_iteration_def t)
next
  case (Raise e)
  with assms(3) have nf: "\<not> is_flood e" by simp
  note t = worker_take_error[where env = env, OF assms(1,2) Raise nf]
  show ?thesis using assms(1) by (simp add: worker_iteration_def t)
qed

lemma fifo_dispatch:
  assumes "in_hand st = None" "n \<le> length (task_queue st)"
    and "\<forall>i<n. \<forall>e. c_outcome (env (calls st + i)) = Raise e \<longrightarrow> \<not> is_flood e"
  shows "\<exists>st'. worker_run env n st = Some st' \<and> in_hand st' = None \<and>
           task_queue st' = drop n (task_queue st) \<and>
           map fst (dispatched st') = map fst (dispatched st) @ take n (map fst (task_queue st))"
  using assms
proof (induction n arbitrary: st)
  case 0
  then show ?case by simp
next
  case (Suc n)
  from Suc.prems(2) obtain func future rest where q: "task_queue st = (func, future) # rest"
    by (cases "task_queue st") auto
  have nf: "\<forall>e. c_outcome (env (calls st)) = Raise e \<longrightarrow> \<not> is_flood e"
    using Suc.prems(3) by force
  from plain_iteration[where env = env, OF Suc.prems(1) q nf] obtain st1 where
    st1: "worker_iteration env st = Some st1" "in_hand st1 = None" "task_queue st1 = rest"
      "calls st1 = Suc (calls st)" "map fst (dispatched st1) = map fst (dispatched st) @ [func]"
    by blast
  have "\<forall>i<n. \<forall>e. c_outcome (env (calls st1 + i)) = Raise e \<longrightarrow> \<not> is_flood e"
    using Suc.prems(3) st1(4) by auto
  moreover have "n \<le> length (task_queue st1)" using Suc.prems(2) q st1(3) by simp
  ultimately obtain st' where
    "worker_run env n st1 = Some st'" "in_hand st' = None"
    "task_queue st' = drop n (task_queue st1)"
    "map fst (dispatched st') = map fst (dispatched st1) @ take n (map fst (task_queue st1))"
    using Suc.IH[OF st1(2)] by blast
  then show ?case using st1 q by simp
qed

text \<open>
  Claim C4. Whatever platform calls the handler makes in the interleaved turns of all
  conversations (initial status messages, command replies, UI-flush edits), none of them
  is dispatched by the handler: each is appended to the limiter's admission queue, in the
  order in which the calls are made; and as long as no call hits a flood error, the worker
  dispatches the queue in exactly that order. (The exception, a task put back behind the
  queue after a flood error, is the subject of claim C3.)
\<close>

theorem handler_sends_pass_the_limiter:
  assumes "in_hand st = None"
    and "n \<le> length (task_queue st) + length (calls_of steps)"
    and "\<forall>i<n. \<forall>e. c_outcome (env (calls st + i)) = Raise e \<longrightarrow> \<not> is_flood e"
  shows "dispatched (perform_all st steps) = dispatched st \<and>
         (\<exists>futs. length futs = length (calls_of steps) \<and>
            task_queue (perform_all st steps) = task_queue st @ zip (calls_of steps) futs) \<and>
         (\<exists>st'. worker_run env n (perform_all st steps) = Some st' \<and>
            map fst (dispatched st') =
              map fst (dispatched st) @ take n (map fst (task_queue st) @ calls_of steps))"
proof -
  let ?st = "perform_all st steps"
  have d: "dispatched ?st = dispatched st" and h: "in_hand ?st = None"
    and c: "calls ?st = calls st"
    using assms(1) by (simp_all add: perform_all_submits submit_all_fields)
  obtain futs where f: "length futs = length (calls_of steps)"
    "task_queue ?st = task_queue st @ zip (calls_of steps) futs"
    using submit_all_queue[of "calls_of steps" st] by (auto simp: perform_all_submits)
  have m: "map fst (task_queue ?st) = map fst (task_queue st) @ calls_of steps"
    using f by simp
  have n: "n \<le> length (task_queue ?st)" using assms(2) f by simp
  have e: "\<forall>i<n. \<forall>e. c_outcome (env (calls ?st + i)) = Raise e \<longrightarrow> \<not> is_flood e"
    using assms(3) c by simp
  from fifo_dispatch[where env = env, OF h n e] obtain st' where
    "worker_run env n ?st = Some st'"
    "map fst (dispatched st') = map fst (dispatched ?st) @ take n (map fst (task_queue ?st))"
    by blast
  then have "\<exists>st'. worker_run env n ?st = Some st' \<and>
      map fst (dispatched st') =
        map fst (dispatched st) @ take n (map fst (task_queue st) @ calls_of steps)"
    using d m by simp
  with d f show ?thesis by blast
qed

lemma decimal_digit: "n < 10 \<Longrightarrow> decimal n = [48 + n]"
  by (subst decimal.simps) simp

theorem handler_sends_pass_the_limiter_witness:
  "calls_of [Incoming (MessageQueueManager :: nat manager) (ascii ''/stats'') ''123'' ''789''
               None 1 5,
             Incoming (MessageQueueManager :: nat manager) [9203, 32, 42] ''123'' ''790''
               None 1 5,
             UiFlush 0 0 2 [(''content'', ascii ''Hi'')] None True ''123'' ''42'']
     = [stats_reply ''123'' 1 5, EditMessage ''123'' ''42'' (ascii ''Hi'') (Some ''markdown'')] \<and>
   (\<exists>st'. worker_run always_ok 2
       (perform_all (GlobalRateLimiter :: (outbound, string) limiter)
          [Incoming (MessageQueueManager :: nat manager) (ascii ''/stats'') ''123'' ''789''
             None 1 5,
           Incoming (MessageQueueManager :: nat manager) [9203, 32, 42] ''123'' ''790''
             None 1 5,
           UiFlush 0 0 2 [(''content'', ascii ''Hi'')] None True ''123'' ''42'']) = Some st' \<and>
       map fst (dispatched st') =
         [stats_reply ''123'' 1 5,
          EditMessage ''123'' ''42'' (ascii ''Hi'') (Some ''markdown'')])"
proof -
  let ?steps = "[Incoming (MessageQueueManager :: nat manager) (ascii ''/stats'') ''123'' ''789''
               None 1 5,
             Incoming (MessageQueueManager :: nat manager) [9203, 32, 42] ''123'' ''790''
               None 1 5,
             UiFlush 0 0 2 [(''content'', ascii ''Hi'')] None True ''123'' ''42'']"
  let ?obs = "[stats_reply ''123'' 1 5,
               EditMessage ''123'' ''42'' (ascii ''Hi'') (Some ''markdown'')]"
  have r: "render [(''content'', ascii ''Hi'')] None = ascii ''Hi''"
    by (simp add: render_def part_line_def List.map_filter_simps)
  have b: "build_message [(''content'', ascii ''Hi'')] None = ascii ''Hi''"
    by (simp add: build_message_def truncate_message_def r) (simp add: ascii_def)
  have h1: "handler_call (Incoming (MessageQueueManager :: nat manager) (ascii ''/stats'')
               ''123'' ''789'' None 1 5) = Some (stats_reply ''123'' 1 5)"
    by (simp add: handle_message_call_def ascii_def)
  have h2: "handler_call (Incoming (MessageQueueManager :: nat manager) [9203, 32, 42]
               ''123'' ''790'' None 1 5) = None"
    by (simp add: handle_message_call_def ascii_def)
  have h3: "handler_call (UiFlush 0 0 2 [(''content'', ascii ''Hi'')] None True ''123'' ''42'')
      = Some (EditMessage ''123'' ''42'' (ascii ''Hi'') (Some ''markdown''))"
    by (simp add: update_ui_call_def b) (simp add: ascii_def)
  have c: "calls_of ?steps = ?obs"
    unfolding calls_of_def by (simp only: List.map_filter_simps h1 h2 h3 option.case)
  have i: "in_hand (GlobalRateLimiter :: (outbound, string) limiter) = None"
    "task_queue (GlobalRateLimiter :: (outbound, string) limiter) = []"
    "dispatched (GlobalRateLimiter :: (outbound, string) limiter) = []"
    by (simp_all add: GlobalRateLimiter_def)
  have n: "2 \<le> length (task_queue (GlobalRateLimiter :: (outbound, string) limiter))
             + length (calls_of ?steps)"
    unfolding c by (simp add: i)
  have e: "\<forall>i<2. \<forall>e. c_outcome (always_ok (calls (GlobalRateLimiter :: (outbound, string) limiter) + i))
             = Raise e \<longrightarrow> \<not> is_flood e"
    by (simp add: always_ok_def)
  from handler_sends_pass_the_limiter[where env = always_ok, OF i(1) n e]
  have "\<exists>st'. worker_run always_ok 2
          (perform_all (GlobalRateLimiter :: (outbound, string) limiter) ?steps) = Some st' \<and>
          map fst (dispatched st') = ?obs"
    unfolding c by (simp add: i)
  with c show ?thesis by blast
qed


end
